theory Spec2Isabelle
  imports Complex_Main "HOL-Library.Word"
begin

unbundle bit_operations_syntax

section \<open>Edit-mesh data model\<close>

text \<open>
  The structures of \<^verbatim>\<open>editmesh_utils.c\<close> are declared in BMesh headers that are not
  part of the sources at hand; the records below carry exactly the fields the modelled
  functions touch.  A \<^verbatim>\<open>float\<close> is modelled as a real number: the only arithmetic
  the modelled code does on it is negation, subtraction and comparison with a tolerance.
  A pointer to a vertex, edge or face is its position in the mesh's element list (its
  \<^verbatim>\<open>BM_elem_index\<close> after \<^verbatim>\<open>BM_mesh_elem_index_ensure\<close>), a NULL pointer is \<open>None\<close>.
\<close>

type_synonym float3 = "real list"
type_synonym float2 = "real \<times> real"

text \<open>Header flags of an element (\<^verbatim>\<open>head.hflag\<close>, a \<^verbatim>\<open>char\<close>).\<close>

definition BM_ELEM_SELECT :: "8 word" where
  "BM_ELEM_SELECT = 1"

definition BM_ELEM_HIDDEN :: "8 word" where
  "BM_ELEM_HIDDEN = 2"

definition BM_elem_flag_test :: "8 word \<Rightarrow> 8 word \<Rightarrow> 8 word" where
  "BM_elem_flag_test hflag h = hflag AND h"

text \<open>
  A vertex: its position \<^verbatim>\<open>co\<close>, its flags and its custom-data block \<^verbatim>\<open>head.data\<close>.
  Modelled from the spec: the attribute slots of the mesh accessor interface
  (allocate, look up by name); the block holds one \<^verbatim>\<open>int\<close> per layer of the mesh's
  vertex data, in layer order.
\<close>

record BMVert =
  co :: float3
  v_hflag :: "8 word"
  v_data :: "int list"

record BMEdge =
  e_v1 :: nat
  e_v2 :: nat

text \<open>
  A face corner: its vertex, its UV coordinate (\<^verbatim>\<open>MLoopUV.uv\<close>) and the answer of the
  caller's predicate \<^verbatim>\<open>uvedit_uv_select_test(scene, l, cd_loop_uv_offset)\<close> for it.
\<close>

record BMLoop =
  l_v :: nat
  l_uv :: float2
  l_uv_sel :: bool

record BMFace =
  f_hflag :: "8 word"
  f_loops :: "BMLoop list"

record BMesh =
  verts :: "BMVert list"
  edges :: "BMEdge list"
  faces :: "BMFace list"
  vtable :: "nat list option"
  vdata_layers :: "string list"

record BMEditMesh =
  bm :: BMesh
  mirror_cdlayer :: int

definition totvert :: "BMesh \<Rightarrow> int" where
  "totvert m = int (length (verts m))"

definition totface :: "BMesh \<Rightarrow> int" where
  "totface m = int (length (faces m))"

section \<open>Custom-data layers\<close>

text \<open>
  Modelled from the spec: \<^verbatim>\<open>CustomData_bmesh_get_layer_n\<close>, the lookup of layer \<open>n\<close> in a
  vertex's block; there is no slot (NULL) when the mesh has no layer \<open>n\<close>.
\<close>

definition CustomData_bmesh_get_layer_n :: "BMVert \<Rightarrow> int \<Rightarrow> int option" where
  "CustomData_bmesh_get_layer_n v n =
     (if 0 \<le> n \<and> n < int (length (v_data v)) then Some (v_data v ! nat n) else None)"

text \<open>
  Modelled from the spec: \<^verbatim>\<open>CustomData_get_named_layer_index\<close>, the index of the layer
  with the given name, or \<open>-1\<close>.
\<close>

fun layer_index_from :: "string list \<Rightarrow> string \<Rightarrow> int \<Rightarrow> int" where
  "layer_index_from [] name k = -1"
| "layer_index_from (x # xs) name k = (if x = name then k else layer_index_from xs name (k + 1))"

definition CustomData_get_named_layer_index :: "BMesh \<Rightarrow> string \<Rightarrow> int" where
  "CustomData_get_named_layer_index m name = layer_index_from (vdata_layers m) name 0"

text \<open>
  Modelled from the spec: \<^verbatim>\<open>BM_data_layer_add_named\<close>, which appends a layer and gives
  every vertex a zeroed slot for it.
\<close>

definition BM_data_layer_add_named :: "BMesh \<Rightarrow> string \<Rightarrow> BMesh" where
  "BM_data_layer_add_named m name =
     m\<lparr>verts := map (\<lambda>v. v\<lparr>v_data := v_data v @ [0]\<rparr>) (verts m),
       vdata_layers := vdata_layers m @ [name]\<rparr>"

section \<open>Mirror cache: queries\<close>

text \<open>
  \<^verbatim>\<open>EDBM_verts_mirror_get\<close>: the slot of \<open>v\<close> in the mirror layer is read; a vertex is
  returned only for a stored index in \<open>[0, totvert)\<close> and only when the vertex table
  exists.
\<close>

definition EDBM_verts_mirror_get :: "BMEditMesh \<Rightarrow> BMVert \<Rightarrow> nat option" where
  "EDBM_verts_mirror_get em v =
     (case CustomData_bmesh_get_layer_n v (mirror_cdlayer em) of
        None \<Rightarrow> None
      | Some mirr \<Rightarrow>
          if mirr \<ge> 0 \<and> mirr < totvert (bm em) then
            (case vtable (bm em) of
               None \<Rightarrow> None
             | Some vt \<Rightarrow> Some (vt ! nat mirr))
          else None)"









section \<open>Mirror cache: construction\<close>

text \<open>
  Modelled from the spec: \<^verbatim>\<open>len_squared_v3v3\<close>, the squared distance of two points.
\<close>

definition len_squared_v3v3 :: "float3 \<Rightarrow> float3 \<Rightarrow> real" where
  "len_squared_v3v3 a b =
     (b ! 0 - a ! 0) * (b ! 0 - a ! 0) + (b ! 1 - a ! 1) * (b ! 1 - a ! 1) +
     (b ! 2 - a ! 2) * (b ! 2 - a ! 2)"

text \<open>
  Modelled from the spec: the Spatial Index (\<^verbatim>\<open>BLI_kdtree_3d\<close>).  The tree is the list
  of inserted (index, point) pairs; \<^verbatim>\<open>find_nearest\<close> returns the index of the nearest
  inserted point, or \<open>-1\<close> for an empty tree.  Among equally near points the model
  returns the one inserted first; the spec leaves the tie open.
\<close>

type_synonym KDTree_3d = "(nat \<times> float3) list"

fun kdtree_nearest :: "KDTree_3d \<Rightarrow> float3 \<Rightarrow> (nat \<times> real) option \<Rightarrow> (nat \<times> real) option" where
  "kdtree_nearest [] q best = best"
| "kdtree_nearest ((i, p) # rest) q best =
     kdtree_nearest rest q
       (case best of
          None \<Rightarrow> Some (i, len_squared_v3v3 q p)
        | Some (j, d) \<Rightarrow>
            if len_squared_v3v3 q p < d then Some (i, len_squared_v3v3 q p) else Some (j, d))"

definition BLI_kdtree_3d_find_nearest :: "KDTree_3d \<Rightarrow> float3 \<Rightarrow> int" where
  "BLI_kdtree_3d_find_nearest tree q =
     (case kdtree_nearest tree q None of None \<Rightarrow> -1 | Some (i, d) \<Rightarrow> int i)"

text \<open>The first loop of the spatial branch: every vertex that is not skipped is inserted.\<close>

definition mirror_kdtree :: "BMesh \<Rightarrow> bool \<Rightarrow> KDTree_3d" where
  "mirror_kdtree m respecthide =
     map (\<lambda>i. (i, co (verts m ! i)))
       (filter (\<lambda>i. \<not> (respecthide \<and> BM_elem_flag_test (v_hflag (verts m ! i)) BM_ELEM_HIDDEN \<noteq> 0))
          [0..<length (verts m)])"

text \<open>
  The candidate \<^verbatim>\<open>v_mirr\<close> of vertex \<open>i\<close>.  With \<open>use_topology\<close> it is the entry of the
  Topology Matcher's table \<open>index_lookup\<close> (an external collaborator, passed in), dropped
  when hidden; otherwise the nearest inserted vertex to the position reflected across
  \<open>axis\<close>, kept when its squared distance is below \<open>maxdist_sq\<close>.
\<close>

definition mirror_find ::
  "BMesh \<Rightarrow> nat \<Rightarrow> bool \<Rightarrow> bool \<Rightarrow> real \<Rightarrow> KDTree_3d \<Rightarrow> (nat \<Rightarrow> nat option) \<Rightarrow> nat \<Rightarrow> nat option"
where
  "mirror_find m axis respecthide use_topology maxdist_sq tree index_lookup i =
     (if use_topology then
        (case index_lookup i of
           None \<Rightarrow> None
         | Some v_mirr \<Rightarrow>
             if respecthide \<and> BM_elem_flag_test (v_hflag (verts m ! v_mirr)) BM_ELEM_HIDDEN \<noteq> 0
             then None else Some v_mirr)
      else
        (let co1 = (co (verts m ! i))[axis := (co (verts m ! i) ! axis) * (-1)];
             i_mirr = BLI_kdtree_3d_find_nearest tree co1
         in if i_mirr \<noteq> -1 then
              (if len_squared_v3v3 co1 (co (verts m ! nat i_mirr)) < maxdist_sq
               then Some (nat i_mirr) else None)
            else None))"

text \<open>
  The body of the main loop for vertex \<open>i\<close>, on the table that \<^verbatim>\<open>VERT_INTPTR\<close> addresses
  (the caller's \<^verbatim>\<open>r_index\<close> or the mirror layer): skipped vertices are left alone, an
  accepted mirror is written into both slots, anything else stores \<open>-1\<close>.
\<close>

definition mirror_cache_vert ::
  "BMesh \<Rightarrow> nat \<Rightarrow> bool \<Rightarrow> bool \<Rightarrow> bool \<Rightarrow> bool \<Rightarrow> real \<Rightarrow> KDTree_3d \<Rightarrow> (nat \<Rightarrow> nat option) \<Rightarrow>
   int list \<Rightarrow> nat \<Rightarrow> int list"
where
  "mirror_cache_vert m axis use_self use_select respecthide use_topology maxdist_sq tree
     index_lookup idx i =
     (if respecthide \<and> BM_elem_flag_test (v_hflag (verts m ! i)) BM_ELEM_HIDDEN \<noteq> 0 then idx
      else if use_select \<and> \<not> BM_elem_flag_test (v_hflag (verts m ! i)) BM_ELEM_SELECT \<noteq> 0 then idx
      else
        (case mirror_find m axis respecthide use_topology maxdist_sq tree index_lookup i of
           Some i_mirr \<Rightarrow>
             if use_self \<or> i_mirr \<noteq> i then (idx[i := int i_mirr])[i_mirr := int i]
             else idx[i := -1]
         | None \<Rightarrow> idx[i := -1]))"

definition mirror_cache_loop ::
  "BMesh \<Rightarrow> nat \<Rightarrow> bool \<Rightarrow> bool \<Rightarrow> bool \<Rightarrow> bool \<Rightarrow> real \<Rightarrow> (nat \<Rightarrow> nat option) \<Rightarrow>
   int list \<Rightarrow> int list"
where
  "mirror_cache_loop m axis use_self use_select respecthide use_topology maxdist index_lookup idx =
     foldl
       (mirror_cache_vert m axis use_self use_select respecthide use_topology (maxdist * maxdist)
          (if use_topology then [] else mirror_kdtree m respecthide) index_lookup)
       idx [0..<length (verts m)]"

text \<open>
  The mirror layer: found by name or added, then read and written as the table.
\<close>

definition BM_CD_LAYER_ID :: string where
  "BM_CD_LAYER_ID = ''__mirror_index''"

definition mirror_layer_ensure :: "BMEditMesh \<Rightarrow> BMEditMesh" where
  "mirror_layer_ensure em =
     (if CustomData_get_named_layer_index (bm em) BM_CD_LAYER_ID = -1 then
        (let m = BM_data_layer_add_named (bm em) BM_CD_LAYER_ID
         in em\<lparr>bm := m, mirror_cdlayer := CustomData_get_named_layer_index m BM_CD_LAYER_ID\<rparr>)
      else em\<lparr>mirror_cdlayer := CustomData_get_named_layer_index (bm em) BM_CD_LAYER_ID\<rparr>)"

definition mirror_layer_read :: "BMEditMesh \<Rightarrow> int list" where
  "mirror_layer_read em = map (\<lambda>v. v_data v ! nat (mirror_cdlayer em)) (verts (bm em))"

definition mirror_layer_write :: "BMEditMesh \<Rightarrow> int list \<Rightarrow> BMEditMesh" where
  "mirror_layer_write em idx =
     em\<lparr>bm := (bm em)\<lparr>verts :=
       map (\<lambda>(v, x). v\<lparr>v_data := (v_data v)[nat (mirror_cdlayer em) := x]\<rparr>)
         (zip (verts (bm em)) idx)\<rparr>\<rparr>"

text \<open>
  \<^verbatim>\<open>EDBM_verts_mirror_cache_begin_ex\<close>.  The vertex table is brought up to date, the
  storage is chosen (\<open>r_index\<close> when given, else the mirror layer, found by name or
  added), and the main loop runs over all vertices in index order, reading and writing
  the chosen storage through \<^verbatim>\<open>VERT_INTPTR\<close>.  The result is the edit-mesh and the
  caller's buffer.
\<close>

definition BM_mesh_elem_table_ensure :: "BMesh \<Rightarrow> BMesh" where
  "BM_mesh_elem_table_ensure m = m\<lparr>vtable := Some [0..<length (verts m)]\<rparr>"

definition mirror_storage_ready :: "BMEditMesh \<Rightarrow> int list option \<Rightarrow> BMEditMesh" where
  "mirror_storage_ready em r_index =
     (let em1 = em\<lparr>bm := BM_mesh_elem_table_ensure (bm em)\<rparr>
      in case r_index of Some idx \<Rightarrow> em1 | None \<Rightarrow> mirror_layer_ensure em1)"

definition mirror_table_read :: "BMEditMesh \<Rightarrow> int list option \<Rightarrow> int list" where
  "mirror_table_read em r_index =
     (case r_index of Some idx \<Rightarrow> idx | None \<Rightarrow> mirror_layer_read em)"

definition mirror_table_write ::
  "BMEditMesh \<Rightarrow> int list option \<Rightarrow> int list \<Rightarrow> BMEditMesh \<times> int list option" where
  "mirror_table_write em r_index idx =
     (case r_index of Some _ \<Rightarrow> (em, Some idx) | None \<Rightarrow> (mirror_layer_write em idx, None))"

definition EDBM_verts_mirror_cache_begin_ex ::
  "BMEditMesh \<Rightarrow> nat \<Rightarrow> bool \<Rightarrow> bool \<Rightarrow> bool \<Rightarrow> bool \<Rightarrow> real \<Rightarrow> int list option \<Rightarrow>
   (nat \<Rightarrow> nat option) \<Rightarrow> BMEditMesh \<times> int list option"
where
  "EDBM_verts_mirror_cache_begin_ex em axis use_self use_select respecthide use_topology maxdist
     r_index index_lookup =
     (let em2 = mirror_storage_ready em r_index
      in mirror_table_write em2 r_index
           (mirror_cache_loop (bm em2) axis use_self use_select respecthide use_topology maxdist
              index_lookup (mirror_table_read em2 r_index)))"

definition BM_SEARCH_MAXDIST_MIRR :: real where
  "BM_SEARCH_MAXDIST_MIRR = 2 / 100000"

definition EDBM_verts_mirror_cache_begin ::
  "BMEditMesh \<Rightarrow> nat \<Rightarrow> bool \<Rightarrow> bool \<Rightarrow> bool \<Rightarrow> bool \<Rightarrow> (nat \<Rightarrow> nat option) \<Rightarrow> BMEditMesh"
where
  "EDBM_verts_mirror_cache_begin em axis use_self use_select respecthide use_topology index_lookup =
     fst (EDBM_verts_mirror_cache_begin_ex em axis use_self use_select respecthide use_topology
            BM_SEARCH_MAXDIST_MIRR None index_lookup)"

definition EDBM_verts_mirror_cache_end :: "BMEditMesh \<Rightarrow> BMEditMesh" where
  "EDBM_verts_mirror_cache_end em = em\<lparr>mirror_cdlayer := -1\<rparr>"

section \<open>Mirror cache: apply\<close>

text \<open>
  \<^verbatim>\<open>EDBM_verts_mirror_apply\<close>: for each vertex in index order whose select flag equals
  \<open>sel_from\<close> and whose mirror's select flag equals \<open>sel_to\<close>, the mirror receives a copy
  of the vertex's position with component 0 multiplied by \<open>-1\<close>.
\<close>

definition set_vert_co :: "BMEditMesh \<Rightarrow> nat \<Rightarrow> float3 \<Rightarrow> BMEditMesh" where
  "set_vert_co em k c =
     em\<lparr>bm := (bm em)\<lparr>verts := (verts (bm em))[k := (verts (bm em) ! k)\<lparr>co := c\<rparr>]\<rparr>\<rparr>"

definition mirror_apply_vert :: "int \<Rightarrow> int \<Rightarrow> BMEditMesh \<Rightarrow> nat \<Rightarrow> BMEditMesh" where
  "mirror_apply_vert sel_from sel_to em i =
     (let v = verts (bm em) ! i in
      if uint (BM_elem_flag_test (v_hflag v) BM_ELEM_SELECT) = sel_from then
        (case EDBM_verts_mirror_get em v of
           None \<Rightarrow> em
         | Some mirr \<Rightarrow>
             if uint (BM_elem_flag_test (v_hflag (verts (bm em) ! mirr)) BM_ELEM_SELECT) = sel_to
             then set_vert_co em mirr ((co v)[0 := (co v ! 0) * (-1)])
             else em)
      else em)"

definition EDBM_verts_mirror_apply :: "BMEditMesh \<Rightarrow> int \<Rightarrow> int \<Rightarrow> BMEditMesh" where
  "EDBM_verts_mirror_apply em sel_from sel_to =
     foldl (mirror_apply_vert sel_from sel_to) em [0..<length (verts (bm em))]"

section \<open>UV vertex map\<close>

text \<open>
  Modelled from the spec: the fixed connect tolerance \<^verbatim>\<open>STD_UV_CONNECT_LIMIT\<close> and
  \<^verbatim>\<open>compare_v2v2\<close>, which holds when two UV coordinates differ by less than the tolerance
  in both axes.  Neither is defined in the sources at hand.
\<close>

definition STD_UV_CONNECT_LIMIT :: real where
  "STD_UV_CONNECT_LIMIT = 1 / 10000"

definition compare_v2v2 :: "float2 \<Rightarrow> float2 \<Rightarrow> real \<Rightarrow> bool" where
  "compare_v2v2 v1 v2 limit = (\<bar>fst v1 - fst v2\<bar> < limit \<and> \<bar>snd v1 - snd v2\<bar> < limit)"

text \<open>
  Modelled from the spec: \<^verbatim>\<open>cross_poly_v2\<close>, the signed area of a polygon in UV space
  (twice the area, by the trapezium rule, positive for a counter-clockwise polygon).
\<close>

fun cross_poly_v2_from :: "float2 \<Rightarrow> float2 list \<Rightarrow> real" where
  "cross_poly_v2_from co_prev [] = 0"
| "cross_poly_v2_from co_prev (co_curr # rest) =
     (fst co_prev - fst co_curr) * (snd co_prev + snd co_curr) + cross_poly_v2_from co_curr rest"

definition cross_poly_v2 :: "float2 list \<Rightarrow> real" where
  "cross_poly_v2 vs = (if vs = [] then 0 else cross_poly_v2_from (last vs) vs)"

text \<open>
  An entry of the map's buffer.  The \<^verbatim>\<open>next\<close> pointers are not a field: the chain that
  the source threads through them from \<^verbatim>\<open>vert[a]\<close> is kept as the list of buffer
  positions it visits, so \<^verbatim>\<open>vert\<close> is a list of chains and NULL is the empty chain.
\<close>

record UvMapVert =
  poly_index :: nat
  loop_of_poly_index :: nat
  separate :: bool

record UvVertMap =
  vmap_vert :: "nat list list"
  vmap_buf :: "UvMapVert list"

definition face_passes :: "bool \<Rightarrow> BMFace \<Rightarrow> bool" where
  "face_passes use_select efa =
     (use_select = False \<or> BM_elem_flag_test (f_hflag efa) BM_ELEM_SELECT \<noteq> 0)"

text \<open>The count \<^verbatim>\<open>totuv\<close> of the first loop over the faces.\<close>

fun uv_vert_count :: "bool \<Rightarrow> BMFace list \<Rightarrow> nat \<Rightarrow> nat" where
  "uv_vert_count use_select [] totuv = totuv"
| "uv_vert_count use_select (efa # rest) totuv =
     uv_vert_count use_select rest
       (if face_passes use_select efa then totuv + length (f_loops efa) else totuv)"

text \<open>
  The second loop: every corner of a passing face takes the next buffer entry, which
  is pushed on the front of the chain of the corner's vertex.
\<close>

fun uv_vert_fill_loops ::
  "nat \<Rightarrow> nat \<Rightarrow> BMLoop list \<Rightarrow> UvMapVert list \<times> nat list list \<Rightarrow>
   UvMapVert list \<times> nat list list" where
  "uv_vert_fill_loops a i [] (buf, vert) = (buf, vert)"
| "uv_vert_fill_loops a i (l # ls) (buf, vert) =
     uv_vert_fill_loops a (i + 1) ls
       (buf @ [\<lparr>poly_index = a, loop_of_poly_index = i, separate = False\<rparr>],
        vert[l_v l := length buf # vert ! l_v l])"

fun uv_vert_fill_faces ::
  "bool \<Rightarrow> nat \<Rightarrow> BMFace list \<Rightarrow> UvMapVert list \<times> nat list list \<Rightarrow>
   UvMapVert list \<times> nat list list" where
  "uv_vert_fill_faces use_select a [] st = st"
| "uv_vert_fill_faces use_select a (efa # rest) st =
     uv_vert_fill_faces use_select (a + 1) rest
       (if face_passes use_select efa then uv_vert_fill_loops a 0 (f_loops efa) st else st)"

text \<open>The winding flags (zeroed by the allocation, written for passing faces).\<close>

definition uv_vert_winding :: "bool \<Rightarrow> BMFace list \<Rightarrow> bool list" where
  "uv_vert_winding use_select fs =
     map (\<lambda>efa. face_passes use_select efa \<and> cross_poly_v2 (map l_uv (f_loops efa)) > 0) fs"

text \<open>
  The loop ``sort individual uvs for each vert'', which both constructors contain with
  their own element type and their own test.  The inner loop walks the rest of the chain:
  a member that passes the test against \<open>v\<close> is unlinked and pushed on \<open>newvlist\<close>, the
  others stay, in order (\<open>kept\<close>).  The outer loop pops the head \<open>v\<close> of \<open>vlist\<close>, runs the
  inner loop and marks the head of \<open>newvlist\<close> as separate.
\<close>

fun uv_merge_inner ::
  "(nat \<Rightarrow> bool) \<Rightarrow> nat list \<Rightarrow> nat list \<Rightarrow> nat list \<Rightarrow> nat list \<times> nat list" where
  "uv_merge_inner conn [] kept newvlist = (kept, newvlist)"
| "uv_merge_inner conn (iterv # next) kept newvlist =
     (if conn iterv then uv_merge_inner conn next kept (iterv # newvlist)
      else uv_merge_inner conn next (kept @ [iterv]) newvlist)"

lemma uv_merge_inner_length:
  "length (fst (uv_merge_inner conn xs kept newvlist)) \<le> length kept + length xs"
proof (induction xs arbitrary: kept newvlist)
  case Nil
  then show ?case by simp
next
  case (Cons iterv xs)
  show ?case
    using Cons.IH[of kept "iterv # newvlist"] Cons.IH[of "kept @ [iterv]" newvlist]
    by simp
qed

lemma uv_merge_inner_shorter:
  "(case uv_merge_inner conn xs [] newvlist of (vlist', newvlist') \<Rightarrow> length vlist')
   < Suc (length xs)"
  using uv_merge_inner_length[of conn xs "[]" newvlist]
  by (simp add: case_prod_beta)

function uv_merge ::
  "(nat \<Rightarrow> nat \<Rightarrow> bool) \<Rightarrow> ('e \<Rightarrow> 'e) \<Rightarrow> 'e list \<Rightarrow> nat list \<Rightarrow> nat list \<Rightarrow> 'e list \<times> nat list"
where
  "uv_merge conn mark buf [] newvlist = (buf, newvlist)"
| "uv_merge conn mark buf (v # vlist) newvlist =
     (case uv_merge_inner (conn v) vlist [] (v # newvlist) of
        (vlist', newvlist') \<Rightarrow>
          uv_merge conn mark (buf[hd newvlist' := mark (buf ! hd newvlist')]) vlist' newvlist')"
  by pat_completeness auto
termination
  apply (relation "measure (\<lambda>(conn, mark, buf, vlist, newvlist). length vlist)")
   apply simp
  apply (auto simp: uv_merge_inner_shorter)
  done

definition uv_sort_vert ::
  "(nat \<Rightarrow> nat \<Rightarrow> bool) \<Rightarrow> ('e \<Rightarrow> 'e) \<Rightarrow> 'e list \<times> nat list list \<Rightarrow> nat \<Rightarrow>
   'e list \<times> nat list list" where
  "uv_sort_vert conn mark st a =
     (case uv_merge conn mark (fst st) (snd st ! a) [] of
        (buf, newvlist) \<Rightarrow> (buf, (snd st)[a := newvlist]))"

text \<open>The UV coordinate of a buffer entry, fetched through its face and corner index.\<close>

definition uv_vert_uv :: "BMesh \<Rightarrow> UvMapVert \<Rightarrow> float2" where
  "uv_vert_uv m v = l_uv (f_loops (faces m ! poly_index v) ! loop_of_poly_index v)"

text \<open>The test of the inner loop of \<^verbatim>\<open>BM_uv_vert_map_create\<close>.\<close>

definition uv_vert_connected ::
  "BMesh \<Rightarrow> bool \<Rightarrow> bool list \<Rightarrow> UvMapVert list \<Rightarrow> nat \<Rightarrow> nat \<Rightarrow> bool" where
  "uv_vert_connected m use_winding winding buf v iterv =
     (compare_v2v2 (uv_vert_uv m (buf ! iterv)) (uv_vert_uv m (buf ! v)) STD_UV_CONNECT_LIMIT \<and>
      (\<not> use_winding \<or>
       winding ! poly_index (buf ! iterv) = winding ! poly_index (buf ! v)))"

text \<open>
  \<^verbatim>\<open>BM_uv_vert_map_create\<close>.  NULL is returned when no corner is counted; the allocations
  are taken to succeed.  The face and corner indices of an entry are not written after the
  fill, so the test reads them from the buffer as filled.
\<close>

definition uv_vert_filled :: "BMesh \<Rightarrow> bool \<Rightarrow> UvMapVert list \<times> nat list list" where
  "uv_vert_filled m use_select =
     uv_vert_fill_faces use_select 0 (faces m) ([], replicate (length (verts m)) [])"

definition BM_uv_vert_map_create :: "BMesh \<Rightarrow> bool \<Rightarrow> bool \<Rightarrow> UvVertMap option" where
  "BM_uv_vert_map_create m use_select use_winding =
     (if uv_vert_count use_select (faces m) 0 = 0 then None
      else
        (let filled = uv_vert_filled m use_select;
             winding = uv_vert_winding use_select (faces m);
             sorted = foldl
                        (uv_sort_vert (uv_vert_connected m use_winding winding (fst filled))
                           (\<lambda>v. v\<lparr>separate := True\<rparr>))
                        filled [0..<length (verts m)]
         in Some \<lparr>vmap_vert = snd sorted, vmap_buf = fst sorted\<rparr>))"

definition BM_uv_vert_map_at_index :: "UvVertMap \<Rightarrow> nat \<Rightarrow> nat list" where
  "BM_uv_vert_map_at_index vmap v = vmap_vert vmap ! v"

section \<open>UV element map\<close>

text \<open>
  An element: its corner \<^verbatim>\<open>l\<close> (given by the index of the corner's face \<^verbatim>\<open>l->f\<close> and the
  corner's index in the face), the separate flag and the island.  Chains are lists of
  buffer positions, as for the vertex map.
\<close>

record UvElement =
  l_face :: nat
  e_loop_of_poly_index :: nat
  e_separate :: bool
  island :: int

record UvElementMap =
  em_vert :: "nat list list"
  em_buf :: "UvElement list"
  totalUVs :: nat
  totalIslands :: int
  islandIndices :: "nat list"

text \<open>Modelled from the spec: the ``unassigned'' sentinel of an island id.\<close>

definition INVALID_ISLAND :: int where
  "INVALID_ISLAND = -1"

fun uv_element_count_loops :: "BMLoop list \<Rightarrow> nat \<Rightarrow> nat" where
  "uv_element_count_loops [] totuv = totuv"
| "uv_element_count_loops (l # ls) totuv =
     uv_element_count_loops ls (if l_uv_sel l then totuv + 1 else totuv)"

fun uv_element_count :: "bool \<Rightarrow> bool \<Rightarrow> BMFace list \<Rightarrow> nat \<Rightarrow> nat" where
  "uv_element_count face_selected uv_selected [] totuv = totuv"
| "uv_element_count face_selected uv_selected (efa # rest) totuv =
     uv_element_count face_selected uv_selected rest
       (if face_passes face_selected efa then
          (if \<not> uv_selected then totuv + length (f_loops efa)
           else uv_element_count_loops (f_loops efa) totuv)
        else totuv)"

fun uv_element_fill_loops ::
  "bool \<Rightarrow> nat \<Rightarrow> nat \<Rightarrow> BMLoop list \<Rightarrow> UvElement list \<times> nat list list \<Rightarrow>
   UvElement list \<times> nat list list" where
  "uv_element_fill_loops uv_selected j i [] (buf, vert) = (buf, vert)"
| "uv_element_fill_loops uv_selected j i (l # ls) (buf, vert) =
     uv_element_fill_loops uv_selected j (i + 1) ls
       (if uv_selected \<and> \<not> l_uv_sel l then (buf, vert)
        else (buf @ [\<lparr>l_face = j, e_loop_of_poly_index = i, e_separate = False,
                       island = INVALID_ISLAND\<rparr>],
              vert[l_v l := length buf # vert ! l_v l]))"

fun uv_element_fill_faces ::
  "bool \<Rightarrow> bool \<Rightarrow> nat \<Rightarrow> BMFace list \<Rightarrow> UvElement list \<times> nat list list \<Rightarrow>
   UvElement list \<times> nat list list" where
  "uv_element_fill_faces face_selected uv_selected j [] st = st"
| "uv_element_fill_faces face_selected uv_selected j (efa # rest) st =
     uv_element_fill_faces face_selected uv_selected (j + 1) rest
       (if face_passes face_selected efa
        then uv_element_fill_loops uv_selected j 0 (f_loops efa) st else st)"

text \<open>
  The winding flags.  The scratch array \<^verbatim>\<open>tf_uv\<close> is resized per face without being
  cleared, and a corner that fails the UV-selection test is skipped before its
  coordinate is copied; \<open>stale j i\<close> stands for whatever entry \<open>i\<close> holds while face \<open>j\<close>
  is measured in that case.
\<close>

fun uv_element_tf_uv ::
  "bool \<Rightarrow> (nat \<Rightarrow> float2) \<Rightarrow> nat \<Rightarrow> BMLoop list \<Rightarrow> float2 list" where
  "uv_element_tf_uv uv_selected stale_j i [] = []"
| "uv_element_tf_uv uv_selected stale_j i (l # ls) =
     (if uv_selected \<and> \<not> l_uv_sel l then stale_j i else l_uv l) #
     uv_element_tf_uv uv_selected stale_j (i + 1) ls"

fun uv_element_winding ::
  "bool \<Rightarrow> bool \<Rightarrow> (nat \<Rightarrow> nat \<Rightarrow> float2) \<Rightarrow> nat \<Rightarrow> BMFace list \<Rightarrow> bool list" where
  "uv_element_winding face_selected uv_selected stale j [] = []"
| "uv_element_winding face_selected uv_selected stale j (efa # rest) =
     (face_passes face_selected efa \<and>
      cross_poly_v2 (uv_element_tf_uv uv_selected (stale j) 0 (f_loops efa)) > 0) #
     uv_element_winding face_selected uv_selected stale (j + 1) rest"

definition uv_element_loop :: "BMesh \<Rightarrow> UvElement \<Rightarrow> BMLoop" where
  "uv_element_loop m e = f_loops (faces m ! l_face e) ! e_loop_of_poly_index e"

text \<open>
  The test of the inner loop of \<^verbatim>\<open>BM_uv_element_map_create\<close>: equal selection states
  and coordinates within the tolerance make two corners \<^verbatim>\<open>connected\<close>; the winding
  flags of their faces must agree when \<open>use_winding\<close> is set.
\<close>

definition uv_element_connected ::
  "BMesh \<Rightarrow> bool \<Rightarrow> bool list \<Rightarrow> UvElement list \<Rightarrow> nat \<Rightarrow> nat \<Rightarrow> bool" where
  "uv_element_connected m use_winding winding buf v iterv =
     (let uv = l_uv (uv_element_loop m (buf ! v));
          uv_vert_sel = l_uv_sel (uv_element_loop m (buf ! v));
          uv2 = l_uv (uv_element_loop m (buf ! iterv));
          uv2_vert_sel = l_uv_sel (uv_element_loop m (buf ! iterv));
          conn = (uv_vert_sel = uv2_vert_sel \<and> compare_v2v2 uv2 uv STD_UV_CONNECT_LIMIT)
      in conn \<and>
         (\<not> use_winding \<or> winding ! l_face (buf ! iterv) = winding ! l_face (buf ! v)))"

text \<open>The element map before the island pass: fill, then sort per vertex.\<close>

definition uv_element_filled ::
  "BMesh \<Rightarrow> bool \<Rightarrow> bool \<Rightarrow> UvElement list \<times> nat list list" where
  "uv_element_filled m face_selected uv_selected =
     uv_element_fill_faces face_selected uv_selected 0 (faces m)
       ([], replicate (length (verts m)) [])"

definition uv_element_sorted ::
  "BMesh \<Rightarrow> bool \<Rightarrow> bool \<Rightarrow> bool \<Rightarrow> (nat \<Rightarrow> nat \<Rightarrow> float2) \<Rightarrow> UvElement list \<times> nat list list"
where
  "uv_element_sorted m face_selected uv_selected use_winding stale =
     (let filled = uv_element_filled m face_selected uv_selected;
          winding = uv_element_winding face_selected uv_selected stale 0 (faces m)
      in foldl
           (uv_sort_vert (uv_element_connected m use_winding winding (fst filled))
              (\<lambda>v. v\<lparr>e_separate := True\<rparr>))
           filled [0..<length (verts m)])"

subsection \<open>Islands\<close>

text \<open>
  The working state of the island pass: the element buffer, the island number of every
  face, the stack of pending faces (top first), the map from old to new buffer positions
  and the new buffer, which holds the \<^verbatim>\<open>islandbufsize\<close> entries written so far.
\<close>

record island_state =
  is_buf :: "UvElement list"
  island_number :: "int list"
  stack :: "nat list"
  remap :: "nat list"
  islandbuf :: "UvElement list"

text \<open>
  The search of a vertex chain for the element of face \<open>efa\<close>.  \<open>init\<close> is the chain from
  \<^verbatim>\<open>initelement\<close> on, the last separate element seen.
\<close>

fun island_find ::
  "UvElement list \<Rightarrow> nat \<Rightarrow> nat list \<Rightarrow> nat list \<Rightarrow> (nat \<times> nat list) option" where
  "island_find buf efa [] init = None"
| "island_find buf efa (element # rest) init =
     (let init' = (if e_separate (buf ! element) then element # rest else init)
      in if l_face (buf ! element) = efa then Some (element, init')
         else island_find buf efa rest init')"

text \<open>
  The walk over the UV vertex of the found element: it starts at \<^verbatim>\<open>initelement\<close>, stops
  at the next separate element, and pushes every face that has no island number yet.
  The island numbers are an array of \<^verbatim>\<open>totfaces\<close> entries.
\<close>

fun island_push ::
  "UvElement list \<Rightarrow> int \<Rightarrow> nat \<Rightarrow> nat list \<Rightarrow> int list \<times> nat list \<Rightarrow> int list \<times> nat list"
where
  "island_push buf nislands initelement [] (isn, stk) = (isn, stk)"
| "island_push buf nislands initelement (element # rest) (isn, stk) =
     (if e_separate (buf ! element) \<and> element \<noteq> initelement then (isn, stk)
      else island_push buf nislands initelement rest
             (if l_face (buf ! element) < length isn \<and>
                 isn ! l_face (buf ! element) = INVALID_ISLAND
              then (isn[l_face (buf ! element) := nislands], l_face (buf ! element) # stk)
              else (isn, stk)))"

text \<open>One corner \<open>l\<close> of the popped face \<open>efa\<close>.\<close>

definition island_corner ::
  "bool \<Rightarrow> nat list list \<Rightarrow> int \<Rightarrow> nat \<Rightarrow> island_state \<Rightarrow> BMLoop \<Rightarrow> island_state" where
  "island_corner uv_selected vert nislands efa st l =
     (if uv_selected \<and> \<not> l_uv_sel l then st
      else
        (case island_find (is_buf st) efa (vert ! l_v l) (vert ! l_v l) of
           None \<Rightarrow> st
         | Some (element, init) \<Rightarrow>
             (let buf = (is_buf st)[element := (is_buf st ! element)\<lparr>island := nislands\<rparr>];
                  pushed = island_push buf nislands (hd init) init (island_number st, stack st)
              in \<lparr>is_buf = buf, island_number = fst pushed, stack = snd pushed,
                  remap = (remap st)[element := length (islandbuf st)],
                  islandbuf = islandbuf st @ [buf ! element]\<rparr>)))"

definition island_face ::
  "BMesh \<Rightarrow> bool \<Rightarrow> nat list list \<Rightarrow> int \<Rightarrow> nat \<Rightarrow> island_state \<Rightarrow> island_state" where
  "island_face m uv_selected vert nislands efa st =
     foldl (island_corner uv_selected vert nislands efa) st (f_loops (faces m ! efa))"

definition island_measure :: "island_state \<Rightarrow> nat" where
  "island_measure st =
     length (filter (\<lambda>x. x = INVALID_ISLAND) (island_number st)) + length (stack st)"

lemma island_number_update_count:
  "f < length isn \<Longrightarrow> isn ! f = INVALID_ISLAND \<Longrightarrow> nislands \<noteq> INVALID_ISLAND \<Longrightarrow>
   Suc (length (filter (\<lambda>x. x = INVALID_ISLAND) (isn[f := nislands]))) =
   length (filter (\<lambda>x. x = INVALID_ISLAND) isn)"
proof (induction isn arbitrary: f)
  case Nil
  then show ?case by simp
next
  case (Cons x isn)
  then show ?case by (cases f) auto
qed

lemma island_push_measure:
  "nislands \<noteq> INVALID_ISLAND \<Longrightarrow>
   length (filter (\<lambda>x. x = INVALID_ISLAND) (fst (island_push buf nislands ie chain (isn, stk)))) +
     length (snd (island_push buf nislands ie chain (isn, stk))) =
   length (filter (\<lambda>x. x = INVALID_ISLAND) isn) + length stk"
proof (induction chain arbitrary: isn stk)
  case Nil
  then show ?case by simp
next
  case (Cons element rest)
  show ?case
    using Cons.IH[OF Cons.prems] island_number_update_count[OF _ _ Cons.prems]
    by (auto simp del: filter.simps)
qed

lemma island_face_measure:
  "nislands \<noteq> INVALID_ISLAND \<Longrightarrow>
   island_measure (foldl (island_corner uv_selected vert nislands efa) st ls) = island_measure st"
proof (induction ls arbitrary: st)
  case Nil
  then show ?case by simp
next
  case (Cons l ls)
  have "island_measure (island_corner uv_selected vert nislands efa st l) = island_measure st"
    using island_push_measure[OF Cons.prems]
    by (simp add: island_corner_def island_measure_def Let_def split: option.splits)
  with Cons show ?case by simp
qed

text \<open>
  The loop \<^verbatim>\<open>while (stacksize > 0)\<close>: a face is popped and its corners are handled.
  Island ids are counted from 0, so they differ from the sentinel.
\<close>

function island_flood ::
  "BMesh \<Rightarrow> bool \<Rightarrow> nat list list \<Rightarrow> nat \<Rightarrow> island_state \<Rightarrow> island_state" where
  "island_flood m uv_selected vert nislands st =
     (case stack st of
        [] \<Rightarrow> st
      | efa # rest \<Rightarrow>
          island_flood m uv_selected vert nislands
            (island_face m uv_selected vert (int nislands) efa (st\<lparr>stack := rest\<rparr>)))"
  by pat_completeness auto
termination
proof (relation "measure (\<lambda>(m, uv_selected, vert, nislands, st). island_measure st)")
  show "wf (measure (\<lambda>(m, uv_selected, vert, nislands, st). island_measure st))"
    by simp
next
  fix m :: BMesh and uv_selected vert and nislands :: nat and st :: island_state and efa rest
  assume "stack st = efa # rest"
  then have "island_measure (st\<lparr>stack := rest\<rparr>) < island_measure st"
    by (simp add: island_measure_def)
  moreover have "int nislands \<noteq> INVALID_ISLAND"
    by (simp add: INVALID_ISLAND_def)
  ultimately show "((m, uv_selected, vert, nislands,
        island_face m uv_selected vert (int nislands) efa (st\<lparr>stack := rest\<rparr>)),
       (m, uv_selected, vert, nislands, st))
      \<in> measure (\<lambda>(m, uv_selected, vert, nislands, st). island_measure st)"
    by (simp add: island_face_def island_face_measure)
qed

text \<open>
  One round of the loop over the buffer: an element without island opens island
  \<open>nislands\<close>, its face is the first on the stack, and the flood runs.
\<close>

definition island_seed ::
  "BMesh \<Rightarrow> bool \<Rightarrow> nat list list \<Rightarrow> nat \<times> island_state \<Rightarrow> nat \<Rightarrow> nat \<times> island_state" where
  "island_seed m uv_selected vert ns i =
     (let nislands = fst ns; st = snd ns
      in if island (is_buf st ! i) = INVALID_ISLAND then
           (let buf = (is_buf st)[i := (is_buf st ! i)\<lparr>island := int nislands\<rparr>];
                efa = l_face (buf ! i)
            in (nislands + 1,
                island_flood m uv_selected vert nislands
                  (st\<lparr>is_buf := buf,
                      island_number := (island_number st)[efa := int nislands],
                      stack := [efa]\<rparr>)))
         else (nislands, st))"

text \<open>The start offsets of the islands in the new buffer.\<close>

fun island_indices :: "UvElement list \<Rightarrow> nat \<Rightarrow> int \<Rightarrow> nat list \<Rightarrow> nat list" where
  "island_indices [] i j indices = indices"
| "island_indices (e # es) i j indices =
     (if island e \<noteq> j then island_indices es (i + 1) (j + 1) (indices[nat (j + 1) := i])
      else island_indices es (i + 1) j indices)"

text \<open>
  \<^verbatim>\<open>BM_uv_element_map_create\<close>.  NULL is returned when no corner is counted.  With
  \<open>do_islands\<close> the island pass runs over the buffer, the chains are redirected into the
  new buffer through the map (whose entries the pass writes before they are read here,
  for a mesh whose faces visit each vertex once), and the new buffer replaces the old.
\<close>

definition BM_uv_element_map_create ::
  "BMesh \<Rightarrow> (nat \<Rightarrow> nat \<Rightarrow> float2) \<Rightarrow> bool \<Rightarrow> bool \<Rightarrow> bool \<Rightarrow> bool \<Rightarrow> UvElementMap option" where
  "BM_uv_element_map_create m stale face_selected uv_selected use_winding do_islands =
     (let totuv = uv_element_count face_selected uv_selected (faces m) 0 in
      if totuv = 0 then None
      else
        (let sorted = uv_element_sorted m face_selected uv_selected use_winding stale in
         if do_islands then
           (let flooded = foldl (island_seed m uv_selected (snd sorted))
                            (0, \<lparr>is_buf = fst sorted,
                                 island_number = replicate (length (faces m)) INVALID_ISLAND,
                                 stack = [], remap = replicate totuv 0, islandbuf = []\<rparr>)
                            [0..<totuv];
                nislands = fst flooded;
                st = snd flooded
            in Some \<lparr>em_vert = map (map (\<lambda>k. remap st ! k)) (snd sorted),
                     em_buf = islandbuf st, totalUVs = totuv,
                     totalIslands = int nislands,
                     islandIndices = island_indices (islandbuf st) 0 0 (replicate nislands 0)\<rparr>)
         else
           Some \<lparr>em_vert = snd sorted, em_buf = fst sorted, totalUVs = totuv,
                 totalIslands = 0, islandIndices = []\<rparr>))"

section \<open>Notions used to state the mirror properties\<close>

text \<open>The two \<^verbatim>\<open>continue\<close> guards of the main loop of the cache construction.\<close>

definition mirror_skipped :: "BMesh \<Rightarrow> bool \<Rightarrow> bool \<Rightarrow> nat \<Rightarrow> bool" where
  "mirror_skipped m use_select respecthide i =
     ((respecthide \<and> BM_elem_flag_test (v_hflag (verts m ! i)) BM_ELEM_HIDDEN \<noteq> 0) \<or>
      (use_select \<and> \<not> BM_elem_flag_test (v_hflag (verts m ! i)) BM_ELEM_SELECT \<noteq> 0))"

text \<open>The mirror that the loop body accepts for vertex \<open>i\<close>, if it accepts one.\<close>

definition mirror_accepts ::
  "BMesh \<Rightarrow> nat \<Rightarrow> bool \<Rightarrow> bool \<Rightarrow> bool \<Rightarrow> bool \<Rightarrow> real \<Rightarrow> (nat \<Rightarrow> nat option) \<Rightarrow> nat \<Rightarrow> nat option"
where
  "mirror_accepts m axis use_self use_select respecthide use_topology maxdist index_lookup i =
     (if mirror_skipped m use_select respecthide i then None
      else
        (case mirror_find m axis respecthide use_topology (maxdist * maxdist)
                (if use_topology then [] else mirror_kdtree m respecthide) index_lookup i of
           Some j \<Rightarrow> if use_self \<or> j \<noteq> i then Some j else None
         | None \<Rightarrow> None))"

text \<open>The table as it stands after \<^verbatim>\<open>EDBM_verts_mirror_cache_begin_ex\<close>.\<close>

definition mirror_table_after ::
  "BMEditMesh \<Rightarrow> nat \<Rightarrow> bool \<Rightarrow> bool \<Rightarrow> bool \<Rightarrow> bool \<Rightarrow> real \<Rightarrow> int list option \<Rightarrow>
   (nat \<Rightarrow> nat option) \<Rightarrow> int list"
where
  "mirror_table_after em axis use_self use_select respecthide use_topology maxdist r_index
     index_lookup =
     mirror_table_read
       (fst (EDBM_verts_mirror_cache_begin_ex em axis use_self use_select respecthide use_topology
               maxdist r_index index_lookup))
       (snd (EDBM_verts_mirror_cache_begin_ex em axis use_self use_select respecthide use_topology
               maxdist r_index index_lookup))"

text \<open>A Topology Matcher table without any match.\<close>

definition mirrtopo_none :: "nat \<Rightarrow> nat option" where
  "mirrtopo_none i = None"



text \<open>
  The storage is usable: a caller's buffer has one entry per vertex; without a buffer,
  every vertex block has one slot per layer of the mesh.
\<close>

definition mirror_storage_ok :: "BMEditMesh \<Rightarrow> int list option \<Rightarrow> bool" where
  "mirror_storage_ok em r_index =
     (case r_index of
        Some idx \<Rightarrow> length idx = length (verts (bm em))
      | None \<Rightarrow> list_all (\<lambda>v. length (v_data v) = length (vdata_layers (bm em))) (verts (bm em)))"

text \<open>The vertex table, when there is one, lists vertices of the mesh, one per index.\<close>

definition vtable_ok :: "BMEditMesh \<Rightarrow> bool" where
  "vtable_ok em =
     (case vtable (bm em) of
        None \<Rightarrow> True
      | Some vt \<Rightarrow> length vt = length (verts (bm em)) \<and>
                  list_all (\<lambda>h. h < length (verts (bm em))) vt)"

text \<open>
  Two states of one edit-mesh that differ at most in the positions of vertices whose
  select flag is not \<open>sel_from\<close>.
\<close>

definition apply_agree :: "int \<Rightarrow> BMEditMesh \<Rightarrow> BMEditMesh \<Rightarrow> bool" where
  "apply_agree sel_from em0 em =
     (mirror_cdlayer em = mirror_cdlayer em0 \<and>
      edges (bm em) = edges (bm em0) \<and> faces (bm em) = faces (bm em0) \<and>
      vtable (bm em) = vtable (bm em0) \<and> vdata_layers (bm em) = vdata_layers (bm em0) \<and>
      length (verts (bm em)) = length (verts (bm em0)) \<and>
      (\<forall>k<length (verts (bm em0)).
         v_hflag (verts (bm em) ! k) = v_hflag (verts (bm em0) ! k) \<and>
         v_data (verts (bm em) ! k) = v_data (verts (bm em0) ! k) \<and>
         (uint (BM_elem_flag_test (v_hflag (verts (bm em0) ! k)) BM_ELEM_SELECT) = sel_from \<longrightarrow>
          co (verts (bm em) ! k) = co (verts (bm em0) ! k))))"

section \<open>Notions used to state the UV map properties\<close>

text \<open>
  The merge step in the spec's words: the head of the vertex's group is popped and
  compared against every remaining member; the members that pass the test leave the
  remaining list and form the popped member's subgroup; this repeats until the remaining
  list is empty.  A subgroup is listed with its popped member first.
\<close>

function uv_spec_groups :: "(nat \<Rightarrow> nat \<Rightarrow> bool) \<Rightarrow> nat list \<Rightarrow> nat list list" where
  "uv_spec_groups conn [] = []"
| "uv_spec_groups conn (v # remaining) =
     (v # filter (conn v) remaining) # uv_spec_groups conn (filter (\<lambda>x. \<not> conn v x) remaining)"
  by pat_completeness auto
termination
  by (relation "measure (\<lambda>(conn, vlist). length vlist)") (auto simp: less_Suc_eq_le)

text \<open>
  The subgroups of a chain as a reader of the map sees them: a new subgroup starts at
  every element whose separate flag is set.
\<close>

fun uv_subgroups :: "(nat \<Rightarrow> bool) \<Rightarrow> nat list \<Rightarrow> nat list list" where
  "uv_subgroups sep [] = []"
| "uv_subgroups sep (x # xs) =
     (case uv_subgroups sep xs of
        [] \<Rightarrow> [[x]]
      | g # gs \<Rightarrow> if sep (hd g) then [x] # g # gs else (x # g) # gs)"

definition uv_vert_subgroups :: "UvVertMap \<Rightarrow> nat \<Rightarrow> nat list list" where
  "uv_vert_subgroups vmap a =
     uv_subgroups (\<lambda>k. separate (vmap_buf vmap ! k)) (vmap_vert vmap ! a)"

definition uv_element_subgroups :: "UvElement list \<times> nat list list \<Rightarrow> nat \<Rightarrow> nat list list" where
  "uv_element_subgroups st a =
     uv_subgroups (\<lambda>k. e_separate (fst st ! k)) (snd st ! a)"

text \<open>
  Chains over a buffer of \<open>n\<close> entries: each chain lists positions below \<open>n\<close> without
  repetition, and no position is on two chains.
\<close>

definition uv_chains_ok :: "nat \<Rightarrow> nat list list \<Rightarrow> bool" where
  "uv_chains_ok n vert =
     ((\<forall>a<length vert. distinct (vert ! a) \<and> (\<forall>k\<in>set (vert ! a). k < n)) \<and>
      (\<forall>a<length vert. \<forall>b<length vert. a \<noteq> b \<longrightarrow> set (vert ! a) \<inter> set (vert ! b) = {}))"

section \<open>Notions used to state the island properties\<close>

text \<open>The corner of an element: its face and its index in the face.\<close>

definition uv_corner :: "UvElement \<Rightarrow> nat \<times> nat" where
  "uv_corner e = (l_face e, e_loop_of_poly_index e)"

text \<open>
  The eligible corners: corners of faces that pass the face filter, restricted to the
  corners that pass the UV-selection predicate when \<open>uv_selected\<close> is set.
\<close>

definition uv_corner_eligible :: "BMesh \<Rightarrow> bool \<Rightarrow> bool \<Rightarrow> nat \<times> nat \<Rightarrow> bool" where
  "uv_corner_eligible m face_selected uv_selected c =
     (fst c < length (faces m) \<and> face_passes face_selected (faces m ! fst c) \<and>
      snd c < length (f_loops (faces m ! fst c)) \<and>
      (uv_selected \<longrightarrow> l_uv_sel (f_loops (faces m ! fst c) ! snd c)))"

text \<open>
  The mesh invariant the island pass relies on: a face visits each of its vertices once,
  and every corner refers to a vertex of the mesh.
\<close>

definition uv_mesh_ok :: "BMesh \<Rightarrow> bool" where
  "uv_mesh_ok m =
     list_all (\<lambda>f. distinct (map l_v (f_loops f)) \<and>
                   list_all (\<lambda>l. l_v l < length (verts m)) (f_loops f)) (faces m)"

text \<open>
  What the island pass is given: a buffer \<open>B\<close> with one element per eligible corner and, for
  every vertex, a chain of exactly the elements at that vertex.
\<close>

definition island_ctx :: "BMesh \<Rightarrow> bool \<Rightarrow> bool \<Rightarrow> UvElement list \<Rightarrow> nat list list \<Rightarrow> bool" where
  "island_ctx m face_selected uv_selected B vert =
     (uv_mesh_ok m \<and>
      (\<forall>k<length B. uv_corner_eligible m face_selected uv_selected (uv_corner (B ! k))) \<and>
      distinct (map uv_corner B) \<and>
      (\<forall>c. uv_corner_eligible m face_selected uv_selected c \<longrightarrow> c \<in> uv_corner ` set B) \<and>
      length vert = length (verts m) \<and>
      (\<forall>a<length (verts m).
         set (vert ! a) = {k. k < length B \<and> l_v (uv_element_loop m (B ! k)) = a}))"

text \<open>
  The fill loop of the element map, about to handle corner \<open>i\<close> of face \<open>j\<close>: the buffer
  holds one unassigned element per eligible corner before \<open>(j, i)\<close>, and the chain of every
  vertex lists the elements at that vertex.
\<close>

definition uv_fill_inv ::
  "BMesh \<Rightarrow> bool \<Rightarrow> bool \<Rightarrow> nat \<Rightarrow> nat \<Rightarrow> UvElement list \<times> nat list list \<Rightarrow> bool" where
  "uv_fill_inv m face_selected uv_selected j i st =
     ((\<forall>e\<in>set (fst st). island e = INVALID_ISLAND) \<and>
      distinct (map uv_corner (fst st)) \<and>
      uv_corner ` set (fst st) =
        {c. uv_corner_eligible m face_selected uv_selected c \<and>
            (fst c < j \<or> (fst c = j \<and> snd c < i))} \<and>
      length (snd st) = length (verts m) \<and>
      (\<forall>a<length (verts m).
         set (snd st ! a) =
           {k. k < length (fst st) \<and> l_v (uv_element_loop m (fst st ! k)) = a}))"

text \<open>Element \<open>k\<close> has been copied to the new buffer, at the position the map gives.\<close>

definition island_placed :: "island_state \<Rightarrow> nat \<Rightarrow> bool" where
  "island_placed st k =
     (remap st ! k < length (islandbuf st) \<and> islandbuf st ! (remap st ! k) = is_buf st ! k)"

text \<open>
  The invariant of the island pass, for island \<open>nis\<close> and the set \<open>P\<close> of pending faces (the
  faces on the stack and the face being handled): only island ids have changed in the
  buffer; an assigned element carries the island number of its face; placed elements are
  assigned; the elements of every numbered face that is not pending are placed; every
  entry of the new buffer is a placed element; pending faces are numbered \<open>nis\<close>; no
  placed element belongs to a face on the stack; the stack has no repetition.
\<close>

definition island_inv ::
  "UvElement list \<Rightarrow> nat \<Rightarrow> int \<Rightarrow> nat set \<Rightarrow> island_state \<Rightarrow> bool" where
  "island_inv B F nis P st =
     (length (is_buf st) = length B \<and>
      (\<forall>k<length B. is_buf st ! k = (B ! k)\<lparr>island := island (is_buf st ! k)\<rparr>) \<and>
      length (island_number st) = F \<and> length (remap st) = length B \<and>
      (\<forall>k<length B. island (is_buf st ! k) \<noteq> INVALID_ISLAND \<longrightarrow>
         island (is_buf st ! k) = island_number st ! l_face (B ! k)) \<and>
      (\<forall>k<length B. island_placed st k \<longrightarrow> island (is_buf st ! k) \<noteq> INVALID_ISLAND) \<and>
      (\<forall>k<length B. island_number st ! l_face (B ! k) \<noteq> INVALID_ISLAND \<and> l_face (B ! k) \<notin> P \<longrightarrow>
         island_placed st k) \<and>
      (\<forall>j<length (islandbuf st). \<exists>k<length B. remap st ! k = j \<and> island_placed st k) \<and>
      (\<forall>f\<in>P. f < F \<and> island_number st ! f = nis) \<and>
      (\<forall>k<length B. island_placed st k \<longrightarrow> l_face (B ! k) \<notin> set (stack st)) \<and>
      distinct (stack st) \<and> set (stack st) \<subseteq> P \<and>
      (\<forall>k<length B. island (is_buf st ! k) = INVALID_ISLAND \<or>
         (0 \<le> island (is_buf st ! k) \<and> island (is_buf st ! k) \<le> nis)))"

text \<open>
  While face \<open>efa\<close> is handled and its corners below \<open>i\<close> are done: \<open>efa\<close> is off the
  stack, its elements at corners below \<open>i\<close> are placed and the others are not.
\<close>

definition island_mid :: "UvElement list \<Rightarrow> nat \<Rightarrow> nat \<Rightarrow> island_state \<Rightarrow> bool" where
  "island_mid B efa i st =
     (efa \<notin> set (stack st) \<and>
      (\<forall>k<length B. l_face (B ! k) = efa \<longrightarrow>
         (island_placed st k \<longleftrightarrow> e_loop_of_poly_index (B ! k) < i)))"

section \<open>Example meshes\<close>

definition mk_vert :: "float3 \<Rightarrow> 8 word \<Rightarrow> int list \<Rightarrow> BMVert" where
  "mk_vert c h d = \<lparr>co = c, v_hflag = h, v_data = d\<rparr>"

definition mk_em :: "BMVert list \<Rightarrow> BMEdge list \<Rightarrow> BMFace list \<Rightarrow> BMEditMesh" where
  "mk_em vs es fs =
     \<lparr>bm = \<lparr>verts = vs, edges = es, faces = fs, vtable = None, vdata_layers = []\<rparr>,
      mirror_cdlayer = -1\<rparr>"


text \<open>A selected vertex at (1, 2, 3) and an unselected one at (1, -2, 3).\<close>

definition em_pair_y :: BMEditMesh where
  "em_pair_y = mk_em [mk_vert [1, 2, 3] 1 [], mk_vert [1, -2, 3] 0 []] [] []"

text \<open>A selected vertex at (1, 0, 0) and an unselected one at (-1, 0, 0).\<close>

definition em_pair_x :: BMEditMesh where
  "em_pair_x = mk_em [mk_vert [1, 0, 0] 1 [], mk_vert [-1, 0, 0] 0 []] [] []"

text \<open>
  An open mirror session over a square 0-1-2-3 and a triangle 0-1-2: vertices 0 and 1
  mirror each other, vertex 2 mirrors itself, vertex 3 has a negative entry, vertex 4
  an entry beyond the vertex count.
\<close>

definition em_session :: BMEditMesh where
  "em_session =
     \<lparr>bm = \<lparr>verts = [mk_vert [1, 0, 0] 1 [1], mk_vert [-1, 1 / 2, 0] 0 [0], mk_vert [0, 1, 0] 1 [2],
                     mk_vert [2, 0, 0] 1 [-1], mk_vert [5, 5, 5] 0 [7]],
            edges = [\<lparr>e_v1 = 0, e_v2 = 1\<rparr>, \<lparr>e_v1 = 1, e_v2 = 2\<rparr>, \<lparr>e_v1 = 2, e_v2 = 0\<rparr>,
                     \<lparr>e_v1 = 2, e_v2 = 3\<rparr>],
            faces = [\<lparr>f_hflag = 1, f_loops = [\<lparr>l_v = 0, l_uv = (0, 0), l_uv_sel = True\<rparr>,
                                               \<lparr>l_v = 1, l_uv = (1, 0), l_uv_sel = True\<rparr>,
                                               \<lparr>l_v = 2, l_uv = (0, 1), l_uv_sel = True\<rparr>]\<rparr>,
                     \<lparr>f_hflag = 1, f_loops = [\<lparr>l_v = 1, l_uv = (0, 0), l_uv_sel = True\<rparr>,
                                               \<lparr>l_v = 0, l_uv = (1, 0), l_uv_sel = True\<rparr>,
                                               \<lparr>l_v = 2, l_uv = (0, 1), l_uv_sel = True\<rparr>]\<rparr>],
            vtable = Some [0, 1, 2, 3, 4], vdata_layers = [''__mirror_index'']\<rparr>,
      mirror_cdlayer = 0\<rparr>"

definition mk_loop :: "nat \<Rightarrow> real \<Rightarrow> real \<Rightarrow> bool \<Rightarrow> BMLoop" where
  "mk_loop v x y s = \<lparr>l_v = v, l_uv = (x, y), l_uv_sel = s\<rparr>"

definition mk_face :: "8 word \<Rightarrow> BMLoop list \<Rightarrow> BMFace" where
  "mk_face h ls = \<lparr>f_hflag = h, f_loops = ls\<rparr>"

definition mk_bm :: "nat \<Rightarrow> BMFace list \<Rightarrow> BMesh" where
  "mk_bm n fs = \<lparr>verts = replicate n (mk_vert [0, 0, 0] 0 []), edges = [], faces = fs,
                 vtable = None, vdata_layers = []\<rparr>"


text \<open>
  Three triangles around vertex 0, whose corners at vertex 0 have the U coordinates
  0, 0.00012 and 0.00006.
\<close>

definition uv_fan :: BMesh where
  "uv_fan = mk_bm 7
     [mk_face 1 [mk_loop 0 0 0 True, mk_loop 1 1 0 True, mk_loop 2 1 1 True],
      mk_face 1 [mk_loop 0 (12 / 100000) 0 True, mk_loop 3 2 0 True, mk_loop 4 2 1 True],
      mk_face 1 [mk_loop 0 (6 / 100000) 0 True, mk_loop 5 3 0 True, mk_loop 6 3 1 True]]"

text \<open>
  Two triangles on the edge 0-2 with the same UV coordinates at the shared vertices:
  the first counter-clockwise in UV space, selected, with selected corners; the second
  clockwise, unselected, with unselected corners.
\<close>

definition uv_flip :: BMesh where
  "uv_flip = mk_bm 4
     [mk_face 1 [mk_loop 0 0 0 True, mk_loop 1 1 0 True, mk_loop 2 0 1 True],
      mk_face 0 [mk_loop 0 0 0 False, mk_loop 2 0 1 False, mk_loop 3 1 0 False]]"

text \<open>
  Triangles 0 and 2 share the edge 1-2 and its UV coordinates; triangle 1 is apart.
\<close>

definition uv_two :: BMesh where
  "uv_two = mk_bm 7
     [mk_face 1 [mk_loop 0 0 0 True, mk_loop 1 1 0 True, mk_loop 2 0 1 True],
      mk_face 1 [mk_loop 4 5 5 True, mk_loop 5 6 5 True, mk_loop 6 5 6 True],
      mk_face 1 [mk_loop 2 0 1 True, mk_loop 1 1 0 True, mk_loop 3 1 1 True]]"

text \<open>A single unselected triangle.\<close>

definition uv_unselected :: BMesh where
  "uv_unselected = mk_bm 3
     [mk_face 0 [mk_loop 0 0 0 True, mk_loop 1 1 0 True, mk_loop 2 0 1 True]]"

text \<open>A scratch array that holds zeros wherever it was not written.\<close>

definition no_stale :: "nat \<Rightarrow> nat \<Rightarrow> float2" where
  "no_stale j i = (0, 0)"

section \<open>Properties of the mirror queries\<close>

text \<open>
  C10: \<^verbatim>\<open>EDBM_verts_mirror_get\<close> returns a vertex only when the slot exists and the
  stored index is at least 0 and below the vertex count; for a missing slot, a negative
  index or an index at or beyond the vertex count it returns none.
\<close>

theorem mirror_get_in_range:
  "(EDBM_verts_mirror_get em v = Some r \<longrightarrow>
      (\<exists>mirr. CustomData_bmesh_get_layer_n v (mirror_cdlayer em) = Some mirr \<and>
              0 \<le> mirr \<and> mirr < totvert (bm em))) \<and>
   (CustomData_bmesh_get_layer_n v (mirror_cdlayer em) = None \<longrightarrow>
      EDBM_verts_mirror_get em v = None) \<and>
   (CustomData_bmesh_get_layer_n v (mirror_cdlayer em) = Some mirr \<and>
      (mirr < 0 \<or> totvert (bm em) \<le> mirr) \<longrightarrow> EDBM_verts_mirror_get em v = None)"
  by (auto simp: EDBM_verts_mirror_get_def split: option.splits if_splits)

theorem mirror_get_in_range_witness:
  "(\<exists>mirr. CustomData_bmesh_get_layer_n (verts (bm em_session) ! 0) (mirror_cdlayer em_session)
             = Some mirr \<and> 0 \<le> mirr \<and> mirr < totvert (bm em_session)) \<and>
   EDBM_verts_mirror_get (EDBM_verts_mirror_cache_end em_session) (verts (bm em_session) ! 0) = None \<and>
   EDBM_verts_mirror_get em_session (verts (bm em_session) ! 3) = None \<and>
   EDBM_verts_mirror_get em_session (verts (bm em_session) ! 4) = None"
proof -
  have g0: "EDBM_verts_mirror_get em_session (verts (bm em_session) ! 0) = Some 1"
    by code_simp
  have s0: "CustomData_bmesh_get_layer_n (verts (bm em_session) ! 0)
              (mirror_cdlayer (EDBM_verts_mirror_cache_end em_session)) = None"
    by code_simp
  have s3: "CustomData_bmesh_get_layer_n (verts (bm em_session) ! 3) (mirror_cdlayer em_session)
              = Some (-1)"
    by code_simp
  have s4: "CustomData_bmesh_get_layer_n (verts (bm em_session) ! 4) (mirror_cdlayer em_session)
              = Some 7"
    by code_simp
  have t: "totvert (bm em_session) = 5"
    by code_simp
  show ?thesis
    using mirror_get_in_range [of em_session "verts (bm em_session) ! 0" 1 0]
      mirror_get_in_range [of "EDBM_verts_mirror_cache_end em_session"
        "verts (bm em_session) ! 0" 0 0]
      mirror_get_in_range [of em_session "verts (bm em_session) ! 3" 0 "-1"]
      mirror_get_in_range [of em_session "verts (bm em_session) ! 4" 0 7]
      g0 s0 s3 s4 t
    by simp
qed

section \<open>Properties of the mirror construction\<close>

lemma mirror_cache_vert_alt:
  "mirror_cache_vert m axis use_self use_select respecthide use_topology (maxdist * maxdist)
     (if use_topology then [] else mirror_kdtree m respecthide) index_lookup idx i =
   (if mirror_skipped m use_select respecthide i then idx
    else case mirror_accepts m axis use_self use_select respecthide use_topology maxdist index_lookup i of
           Some j \<Rightarrow> (idx[i := int j])[j := int i]
         | None \<Rightarrow> idx[i := -1])"
  by (simp add: mirror_cache_vert_def mirror_skipped_def mirror_accepts_def split: option.splits)

lemma mirror_cache_vert_length:
  "length (mirror_cache_vert m axis use_self use_select respecthide use_topology msq tree
     index_lookup idx i) = length idx"
  by (simp add: mirror_cache_vert_def split: option.splits)

lemma foldl_mirror_length:
  "length (foldl (mirror_cache_vert m axis use_self use_select respecthide use_topology msq tree
     index_lookup) idx is) = length idx"
  by (induction "is" arbitrary: idx) (simp_all add: mirror_cache_vert_length)

subsection \<open>The two storages\<close>

lemma layer_index_from_bounds:
  assumes "0 \<le> k"
  shows "layer_index_from xs name k = -1 \<or>
    (k \<le> layer_index_from xs name k \<and> layer_index_from xs name k < k + int (length xs))"
  using assms
proof (induction xs arbitrary: k)
  case Nil
  then show ?case by simp
next
  case (Cons x xs)
  from Cons.IH[of "k + 1"] Cons.prems show ?case by auto
qed

lemma layer_index_from_append:
  "layer_index_from xs name k = -1 \<Longrightarrow> 0 \<le> k \<Longrightarrow>
   layer_index_from (xs @ [name]) name k = k + int (length xs)"
  by (induction xs name k rule: layer_index_from.induct) (auto split: if_splits)

lemma mirror_layer_ensure_slot:
  assumes "list_all (\<lambda>v. length (v_data v) = length (vdata_layers (bm em))) (verts (bm em))"
  shows "list_all (\<lambda>v. 0 \<le> mirror_cdlayer (mirror_layer_ensure em) \<and>
           nat (mirror_cdlayer (mirror_layer_ensure em)) < length (v_data v))
           (verts (bm (mirror_layer_ensure em)))"
proof (cases "CustomData_get_named_layer_index (bm em) BM_CD_LAYER_ID = -1")
  case True
  then have "layer_index_from (vdata_layers (bm em) @ [BM_CD_LAYER_ID]) BM_CD_LAYER_ID 0 =
      int (length (vdata_layers (bm em)))"
    using layer_index_from_append[of "vdata_layers (bm em)" BM_CD_LAYER_ID 0]
    by (simp add: CustomData_get_named_layer_index_def)
  then show ?thesis using True assms
    by (simp add: mirror_layer_ensure_def Let_def BM_data_layer_add_named_def
        CustomData_get_named_layer_index_def list_all_iff)
next
  case False
  then show ?thesis
    using assms layer_index_from_bounds[of 0 "vdata_layers (bm em)" BM_CD_LAYER_ID]
    by (auto simp add: mirror_layer_ensure_def Let_def
        CustomData_get_named_layer_index_def list_all_iff)
qed

lemma mirror_layer_read_write:
  assumes "length idx = length (verts (bm em))"
    and "list_all (\<lambda>v. nat (mirror_cdlayer em) < length (v_data v)) (verts (bm em))"
  shows "mirror_layer_read (mirror_layer_write em idx) = idx"
  using assms
  by (auto simp: mirror_layer_read_def mirror_layer_write_def list_all_iff
      intro!: nth_equalityI)

lemma mirror_storage_ready_length:
  "length (verts (bm (mirror_storage_ready em r_index))) = length (verts (bm em))"
  by (simp add: mirror_storage_ready_def mirror_layer_ensure_def BM_mesh_elem_table_ensure_def
      BM_data_layer_add_named_def Let_def split: option.splits)

lemma mirror_table_read_length:
  assumes "mirror_storage_ok em r_index"
  shows "length (mirror_table_read (mirror_storage_ready em r_index) r_index) =
         length (verts (bm em))"
  using assms
  by (simp add: mirror_table_read_def mirror_storage_ok_def mirror_layer_read_def
      mirror_storage_ready_length split: option.splits)

text \<open>With either storage, the table read back after the call is what the main loop computed.\<close>

lemma mirror_table_after_loop:
  assumes "mirror_storage_ok em r_index"
  shows "mirror_table_after em axis use_self use_select respecthide use_topology maxdist r_index
           index_lookup =
         mirror_cache_loop (bm (mirror_storage_ready em r_index)) axis use_self use_select
           respecthide use_topology maxdist index_lookup
           (mirror_table_read (mirror_storage_ready em r_index) r_index)"
  using assms mirror_layer_ensure_slot[of "em\<lparr>bm := BM_mesh_elem_table_ensure (bm em)\<rparr>"]
  apply (cases r_index)
   apply (simp_all add: EDBM_verts_mirror_cache_begin_ex_def mirror_table_write_def
      mirror_table_read_def mirror_storage_ok_def mirror_table_after_def Let_def)
  apply (rule mirror_layer_read_write)
   apply (simp_all add: mirror_cache_loop_def foldl_mirror_length mirror_layer_read_def
      mirror_storage_ready_def BM_mesh_elem_table_ensure_def list_all_iff)
  done

subsection \<open>Accepted mirrors\<close>

lemma kdtree_nearest_mem:
  "kdtree_nearest tree q best = Some (i, d) \<Longrightarrow>
   (\<exists>d'. best = Some (i, d')) \<or> i \<in> fst ` set tree"
proof (induction tree arbitrary: best)
  case Nil
  then show ?case by simp
next
  case (Cons a tree)
  obtain j p where a: "a = (j, p)" by (cases a)
  from Cons.prems have "kdtree_nearest tree q
       (case best of
          None \<Rightarrow> Some (j, len_squared_v3v3 q p)
        | Some (j', d') \<Rightarrow>
            if len_squared_v3v3 q p < d' then Some (j, len_squared_v3v3 q p) else Some (j', d'))
       = Some (i, d)"
    by (simp add: a)
  from Cons.IH[OF this] show ?case
    by (auto simp: a split: option.splits if_splits)
qed

lemma mirror_find_not_hidden:
  assumes "mirror_find m axis respecthide use_topology msq
             (if use_topology then [] else mirror_kdtree m respecthide) index_lookup i = Some j"
  shows "\<not> (respecthide \<and> BM_elem_flag_test (v_hflag (verts m ! j)) BM_ELEM_HIDDEN \<noteq> 0)"
proof (cases use_topology)
  case True
  with assms show ?thesis
    by (auto simp: mirror_find_def split: option.splits if_splits)
next
  case False
  let ?q = "(co (verts m ! i))[axis := (co (verts m ! i) ! axis) * (-1)]"
  from assms False obtain d where
    "kdtree_nearest (mirror_kdtree m respecthide) ?q None = Some (j, d)"
    by (auto simp: mirror_find_def BLI_kdtree_3d_find_nearest_def Let_def
        split: option.splits if_splits)
  from kdtree_nearest_mem[OF this] have "j \<in> fst ` set (mirror_kdtree m respecthide)"
    by simp
  then show ?thesis
    by (auto simp: mirror_kdtree_def)
qed

lemma mirror_accepts_not_hidden:
  assumes "mirror_accepts m axis use_self use_select respecthide use_topology maxdist
             index_lookup i = Some j"
  shows "\<not> (respecthide \<and> BM_elem_flag_test (v_hflag (verts m ! j)) BM_ELEM_HIDDEN \<noteq> 0)"
proof -
  from assms have "mirror_find m axis respecthide use_topology (maxdist * maxdist)
      (if use_topology then [] else mirror_kdtree m respecthide) index_lookup i = Some j"
    by (auto simp: mirror_accepts_def split: if_splits option.splits)
  then show ?thesis by (rule mirror_find_not_hidden)
qed




lemma mirror_accepts_processed:
  "mirror_accepts m axis use_self use_select respecthide use_topology maxdist index_lookup i = Some j
   \<Longrightarrow> \<not> mirror_skipped m use_select respecthide i"
  by (auto simp: mirror_accepts_def split: if_splits)

subsection \<open>Symmetry\<close>





subsection \<open>Skipped vertices\<close>

text \<open>
  A skipped vertex keeps its entry until a round accepts it as a mirror; from then on it
  holds the index of the last round that did.
\<close>

lemma mirror_loop_skipped:
  assumes len: "length idx = length (verts m)"
    and k: "k \<le> length (verts m)"
  shows "\<forall>v<length (verts m). mirror_skipped m use_select respecthide v \<longrightarrow>
      ((\<forall>i<k. mirror_accepts m axis use_self use_select respecthide use_topology maxdist
                index_lookup i \<noteq> Some v) \<longrightarrow>
       foldl (mirror_cache_vert m axis use_self use_select respecthide use_topology (maxdist * maxdist)
          (if use_topology then [] else mirror_kdtree m respecthide) index_lookup) idx [0..<k] ! v =
        idx ! v) \<and>
      ((\<exists>i<k. mirror_accepts m axis use_self use_select respecthide use_topology maxdist
                index_lookup i = Some v) \<longrightarrow>
       (\<exists>i<k. mirror_accepts m axis use_self use_select respecthide use_topology maxdist
                index_lookup i = Some v \<and>
         foldl (mirror_cache_vert m axis use_self use_select respecthide use_topology (maxdist * maxdist)
          (if use_topology then [] else mirror_kdtree m respecthide) index_lookup) idx [0..<k] ! v =
         int i \<and>
         (\<forall>i'<k. mirror_accepts m axis use_self use_select respecthide use_topology maxdist
                index_lookup i' = Some v \<longrightarrow> i' \<le> i)))"
  using k
proof (induction k)
  case 0
  then show ?case by simp
next
  case (Suc k)
  let ?step = "mirror_cache_vert m axis use_self use_select respecthide use_topology (maxdist * maxdist)
          (if use_topology then [] else mirror_kdtree m respecthide) index_lookup"
  let ?acc = "mirror_accepts m axis use_self use_select respecthide use_topology maxdist index_lookup"
  let ?sk = "mirror_skipped m use_select respecthide"
  define T where "T = foldl ?step idx [0..<k]"
  define T' where "T' = foldl ?step idx [0..<Suc k]"
  have lenT: "length T = length (verts m)"
    using len by (simp add: T_def foldl_mirror_length)
  have kn: "k < length (verts m)" using Suc.prems by simp
  have IHa: "T ! v = idx ! v"
    if "v < length (verts m)" and "?sk v" and "\<forall>i<k. ?acc i \<noteq> Some v" for v
    using Suc that by (simp add: T_def)
  have IHb: "\<exists>i<k. ?acc i = Some v \<and> T ! v = int i \<and> (\<forall>i'<k. ?acc i' = Some v \<longrightarrow> i' \<le> i)"
    if "v < length (verts m)" and "?sk v" and "\<exists>i<k. ?acc i = Some v" for v
    using Suc that by (simp add: T_def)
  have step: "T' = (if ?sk k then T
      else case ?acc k of Some j \<Rightarrow> (T[k := int j])[j := int k] | None \<Rightarrow> T[k := -1])"
    unfolding T'_def T_def by (simp only: mirror_cache_vert_alt[symmetric]) simp
  have same: "T' ! v = T ! v" if "?sk v" and "?acc k \<noteq> Some v" for v
  proof (cases "?sk k")
    case True
    then show ?thesis by (simp add: step)
  next
    case False
    with that have "v \<noteq> k" by auto
    with that False show ?thesis by (cases "?acc k") (auto simp: step)
  qed
  have hit: "T' ! v = int k" if "v < length (verts m)" and "?acc k = Some v" for v
  proof -
    from that have "\<not> ?sk k" using mirror_accepts_processed by blast
    with that lenT show ?thesis by (simp add: step)
  qed
  show ?case
  proof (intro allI impI conjI)
    fix v assume v: "v < length (verts m)" and sk: "?sk v"
      and no: "\<forall>i<Suc k. ?acc i \<noteq> Some v"
    from no have "?acc k \<noteq> Some v" and "\<forall>i<k. ?acc i \<noteq> Some v" by auto
    with same[OF sk] IHa[OF v sk] show "foldl ?step idx [0..<Suc k] ! v = idx ! v"
      unfolding T'_def[symmetric] by simp
  next
    fix v assume v: "v < length (verts m)" and sk: "?sk v"
      and ex: "\<exists>i<Suc k. ?acc i = Some v"
    show "\<exists>i<Suc k. ?acc i = Some v \<and> foldl ?step idx [0..<Suc k] ! v = int i \<and>
        (\<forall>i'<Suc k. ?acc i' = Some v \<longrightarrow> i' \<le> i)"
      unfolding T'_def[symmetric]
    proof (cases "?acc k = Some v")
      case True
      with hit[OF v True] show "\<exists>i<Suc k. ?acc i = Some v \<and> T' ! v = int i \<and>
        (\<forall>i'<Suc k. ?acc i' = Some v \<longrightarrow> i' \<le> i)"
        by (intro exI[of _ k]) auto
    next
      case False
      with ex have "\<exists>i<k. ?acc i = Some v" by (auto simp: less_Suc_eq)
      from IHb[OF v sk this] obtain i where i: "i < k" "?acc i = Some v" "T ! v = int i"
        "\<forall>i'<k. ?acc i' = Some v \<longrightarrow> i' \<le> i" by blast
      with same[OF sk False] False
      show "\<exists>i<Suc k. ?acc i = Some v \<and> T' ! v = int i \<and>
        (\<forall>i'<Suc k. ?acc i' = Some v \<longrightarrow> i' \<le> i)"
        by (intro exI[of _ i]) (auto simp: less_Suc_eq)
    qed
  qed
qed

text \<open>
  C3, as stated, fails: with \<open>use_select\<close> set, a selected vertex at (1, 0, 0) and an
  unselected one at (-1, 0, 0), the unselected vertex 1 ends with entry 0, not \<open>-1\<close>: the
  loop skips it, and the round of vertex 0 writes its slot.
\<close>

theorem mirror_skipped_counterexample:
  "snd (EDBM_verts_mirror_cache_begin_ex em_pair_x 0 False True False False 1
          (Some [-1, -1]) mirrtopo_none) = Some [1, 0]"
  by code_simp

text \<open>
  C3, amended: \<^verbatim>\<open>EDBM_verts_mirror_cache_begin_ex\<close> skips every vertex that is hidden
  (when \<open>respecthide\<close> is set) or unselected (when \<open>use_select\<close> is set) and does not
  reset its entry.  After the call the entry of such a vertex is what it was before the
  loop when no vertex accepted it as its mirror; when some vertex did, the entry is the
  index of the last vertex (in index order) that accepted it.  With \<open>respecthide\<close> a
  hidden vertex is never accepted, so its entry is exactly what it was before the loop.
\<close>

theorem mirror_cache_skipped:
  assumes ok: "mirror_storage_ok em r_index"
    and v: "v < length (verts (bm em))"
    and sk: "mirror_skipped (bm (mirror_storage_ready em r_index)) use_select respecthide v"
  shows "((\<forall>i<length (verts (bm em)).
             mirror_accepts (bm (mirror_storage_ready em r_index)) axis use_self use_select
               respecthide use_topology maxdist index_lookup i \<noteq> Some v) \<longrightarrow>
          mirror_table_after em axis use_self use_select respecthide use_topology maxdist
            r_index index_lookup ! v =
          mirror_table_read (mirror_storage_ready em r_index) r_index ! v) \<and>
         ((\<exists>i<length (verts (bm em)).
             mirror_accepts (bm (mirror_storage_ready em r_index)) axis use_self use_select
               respecthide use_topology maxdist index_lookup i = Some v) \<longrightarrow>
          (\<exists>i<length (verts (bm em)).
             mirror_accepts (bm (mirror_storage_ready em r_index)) axis use_self use_select
               respecthide use_topology maxdist index_lookup i = Some v \<and>
             mirror_table_after em axis use_self use_select respecthide use_topology maxdist
               r_index index_lookup ! v = int i \<and>
             (\<forall>i'<length (verts (bm em)).
                mirror_accepts (bm (mirror_storage_ready em r_index)) axis use_self use_select
                  respecthide use_topology maxdist index_lookup i' = Some v \<longrightarrow> i' \<le> i))) \<and>
         (respecthide \<and>
          BM_elem_flag_test (v_hflag (verts (bm (mirror_storage_ready em r_index)) ! v))
            BM_ELEM_HIDDEN \<noteq> 0 \<longrightarrow>
          mirror_table_after em axis use_self use_select respecthide use_topology maxdist
            r_index index_lookup ! v =
          mirror_table_read (mirror_storage_ready em r_index) r_index ! v)"
proof -
  let ?m = "bm (mirror_storage_ready em r_index)"
  let ?acc = "mirror_accepts ?m axis use_self use_select respecthide use_topology maxdist index_lookup"
  let ?T = "mirror_table_after em axis use_self use_select respecthide use_topology maxdist
              r_index index_lookup"
  let ?I = "mirror_table_read (mirror_storage_ready em r_index) r_index"
  have n: "length (verts ?m) = length (verts (bm em))"
    by (rule mirror_storage_ready_length)
  have len: "length ?I = length (verts ?m)"
    using mirror_table_read_length[OF ok] n by simp
  have T: "?T = foldl (mirror_cache_vert ?m axis use_self use_select respecthide use_topology
      (maxdist * maxdist) (if use_topology then [] else mirror_kdtree ?m respecthide)
      index_lookup) ?I [0..<length (verts ?m)]"
    by (simp only: mirror_table_after_loop[OF ok] mirror_cache_loop_def)
  have vn: "v < length (verts ?m)" using v n by simp
  from mirror_loop_skipped[OF len order_refl, of use_select respecthide axis use_self
      use_topology maxdist index_lookup] vn sk
  have first: "(\<forall>i<length (verts ?m). ?acc i \<noteq> Some v) \<longrightarrow> ?T ! v = ?I ! v"
    and second: "(\<exists>i<length (verts ?m). ?acc i = Some v) \<longrightarrow>
       (\<exists>i<length (verts ?m). ?acc i = Some v \<and> ?T ! v = int i \<and>
          (\<forall>i'<length (verts ?m). ?acc i' = Some v \<longrightarrow> i' \<le> i))"
    unfolding T by blast+
  have third: "?T ! v = ?I ! v"
    if "respecthide \<and> BM_elem_flag_test (v_hflag (verts ?m ! v)) BM_ELEM_HIDDEN \<noteq> 0"
    using first that mirror_accepts_not_hidden[of ?m axis use_self use_select respecthide
        use_topology maxdist index_lookup _ v]
    by blast
  from first second third show ?thesis unfolding n by blast
qed

theorem mirror_cache_skipped_witness:
  "mirror_skipped (bm (mirror_storage_ready em_pair_x (Some [5, 7]))) True False 1 \<and>
   (\<exists>i<length (verts (bm em_pair_x)).
      mirror_accepts (bm (mirror_storage_ready em_pair_x (Some [5, 7]))) 0 False True False
        False 1 mirrtopo_none i = Some 1 \<and>
      mirror_table_after em_pair_x 0 False True False False 1 (Some [5, 7]) mirrtopo_none ! 1 =
      int i) \<and>
   mirror_table_after em_pair_x 0 False True False False 1 (Some [5, 7]) mirrtopo_none ! 1 = 0 \<and>
   mirror_skipped (bm (mirror_storage_ready em_pair_y (Some [5, 7]))) True False 1 \<and>
   mirror_table_after em_pair_y 0 False True False False 1 (Some [5, 7]) mirrtopo_none ! 1 = 7"
proof -
  have ok: "mirror_storage_ok em_pair_x (Some [5, 7])"
    by code_simp
  have v: "1 < length (verts (bm em_pair_x))"
    by code_simp
  have sk: "mirror_skipped (bm (mirror_storage_ready em_pair_x (Some [5, 7]))) True False 1"
    by code_simp
  have ex: "\<exists>i<length (verts (bm em_pair_x)).
      mirror_accepts (bm (mirror_storage_ready em_pair_x (Some [5, 7]))) 0 False True False
        False 1 mirrtopo_none i = Some 1"
    by code_simp
  have t: "mirror_table_after em_pair_x 0 False True False False 1 (Some [5, 7]) mirrtopo_none ! 1 = 0"
    by code_simp
  have ok': "mirror_storage_ok em_pair_y (Some [5, 7])"
    by code_simp
  have v': "1 < length (verts (bm em_pair_y))"
    by code_simp
  have sk': "mirror_skipped (bm (mirror_storage_ready em_pair_y (Some [5, 7]))) True False 1"
    by code_simp
  have no: "\<forall>i<length (verts (bm em_pair_y)).
      mirror_accepts (bm (mirror_storage_ready em_pair_y (Some [5, 7]))) 0 False True False
        False 1 mirrtopo_none i \<noteq> Some 1"
    by code_simp
  have i': "mirror_table_read (mirror_storage_ready em_pair_y (Some [5, 7])) (Some [5, 7]) ! 1 = 7"
    by code_simp
  from mirror_cache_skipped [OF ok v sk, of 0 False False 1 mirrtopo_none] ex
  have a: "\<exists>i<length (verts (bm em_pair_x)).
      mirror_accepts (bm (mirror_storage_ready em_pair_x (Some [5, 7]))) 0 False True False
        False 1 mirrtopo_none i = Some 1 \<and>
      mirror_table_after em_pair_x 0 False True False False 1 (Some [5, 7]) mirrtopo_none ! 1 =
      int i"
    by blast
  from mirror_cache_skipped [OF ok' v' sk', of 0 False False 1 mirrtopo_none] no i'
  have b: "mirror_table_after em_pair_y 0 False True False False 1 (Some [5, 7]) mirrtopo_none ! 1 = 7"
    by simp
  from a b sk sk' t show ?thesis by blast
qed

section \<open>Properties of the mirror apply\<close>

text \<open>
  C1 at a failing input.  The cache is opened with axis 1 on a selected vertex at
  (1, 2, 3) and an unselected vertex at (1, -2, 3), which become mirrors of each other;
  \<^verbatim>\<open>EDBM_verts_mirror_apply\<close> then moves the mirror to (-1, 2, 3): component 0 is negated,
  not the component of the axis the cache was opened with, which would give (1, -2, 3).
\<close>

theorem mirror_apply_axis_fixed:
  "map co (verts (bm (EDBM_verts_mirror_apply
      (EDBM_verts_mirror_cache_begin em_pair_y 1 False True False False mirrtopo_none) 1 0))) =
   [[1, 2, 3], [-1, 2, 3]]"
  by code_simp

lemma mirror_get_lt:
  assumes "vtable_ok em" and "EDBM_verts_mirror_get em v = Some mirr"
  shows "mirr < length (verts (bm em))"
  using assms
  by (auto simp: vtable_ok_def EDBM_verts_mirror_get_def totvert_def list_all_length
      split: option.splits if_splits)

lemma apply_agree_refl: "apply_agree sel_from em em"
  by (simp add: apply_agree_def)

lemma apply_agree_get:
  assumes "apply_agree sel_from em0 em" and "i < length (verts (bm em0))"
  shows "EDBM_verts_mirror_get em (verts (bm em) ! i) =
         EDBM_verts_mirror_get em0 (verts (bm em0) ! i)"
  using assms
  by (simp add: apply_agree_def EDBM_verts_mirror_get_def CustomData_bmesh_get_layer_n_def
      totvert_def)

lemma apply_agree_set:
  assumes "apply_agree sel_from em0 em" and "k < length (verts (bm em0))"
    and "uint (BM_elem_flag_test (v_hflag (verts (bm em0) ! k)) BM_ELEM_SELECT) \<noteq> sel_from"
  shows "apply_agree sel_from em0 (set_vert_co em k c)"
  using assms
  by (auto simp: apply_agree_def set_vert_co_def nth_list_update)

text \<open>
  When the two flags differ, a pass is a fixed list of position writes: the targets and
  the positions written are determined by the flags, the table and the positions of the
  source vertices, none of which the pass changes.
\<close>

lemma apply_as_writes:
  assumes ok: "vtable_ok em0" and ne: "sel_from \<noteq> sel_to"
    and "set is \<subseteq> {..<length (verts (bm em0))}"
  shows "\<exists>ws. \<forall>em. apply_agree sel_from em0 em \<longrightarrow>
           foldl (mirror_apply_vert sel_from sel_to) em is =
             foldl (\<lambda>e (k, c). set_vert_co e k c) em ws \<and>
           apply_agree sel_from em0 (foldl (mirror_apply_vert sel_from sel_to) em is)"
  using assms(3)
proof (induction "is")
  case Nil
  have "\<forall>em. apply_agree sel_from em0 em \<longrightarrow>
           foldl (mirror_apply_vert sel_from sel_to) em [] =
             foldl (\<lambda>e (k, c). set_vert_co e k c) em [] \<and>
           apply_agree sel_from em0 (foldl (mirror_apply_vert sel_from sel_to) em [])"
    by simp
  then show ?case by blast
next
  case (Cons i "is")
  then obtain ws where "\<forall>em. apply_agree sel_from em0 em \<longrightarrow>
           foldl (mirror_apply_vert sel_from sel_to) em is =
             foldl (\<lambda>e (k, c). set_vert_co e k c) em ws \<and>
           apply_agree sel_from em0 (foldl (mirror_apply_vert sel_from sel_to) em is)"
    by auto
  then have ws1: "\<And>em. apply_agree sel_from em0 em \<Longrightarrow>
           foldl (mirror_apply_vert sel_from sel_to) em is =
             foldl (\<lambda>e (k, c). set_vert_co e k c) em ws"
    and ws2: "\<And>em. apply_agree sel_from em0 em \<Longrightarrow>
           apply_agree sel_from em0 (foldl (mirror_apply_vert sel_from sel_to) em is)"
    by blast+
  from Cons.prems have i: "i < length (verts (bm em0))" by simp
  let ?v0 = "verts (bm em0) ! i"
  let ?active = "uint (BM_elem_flag_test (v_hflag ?v0) BM_ELEM_SELECT) = sel_from \<and>
      (\<exists>mirr. EDBM_verts_mirror_get em0 ?v0 = Some mirr \<and>
         uint (BM_elem_flag_test (v_hflag (verts (bm em0) ! mirr)) BM_ELEM_SELECT) = sel_to)"
  show ?case
  proof (cases ?active)
    case False
    have same: "mirror_apply_vert sel_from sel_to em i = em" if ag: "apply_agree sel_from em0 em" for em
    proof -
      have g: "EDBM_verts_mirror_get em (verts (bm em) ! i) = EDBM_verts_mirror_get em0 ?v0"
        by (rule apply_agree_get[OF ag i])
      have f: "v_hflag (verts (bm em) ! i) = v_hflag ?v0"
        using ag i by (simp add: apply_agree_def)
      show ?thesis
      proof (cases "EDBM_verts_mirror_get em0 ?v0")
        case None
        then show ?thesis using g by (simp add: mirror_apply_vert_def Let_def)
      next
        case (Some mirr)
        with ok have "mirr < length (verts (bm em0))" by (rule mirror_get_lt)
        then have "v_hflag (verts (bm em) ! mirr) = v_hflag (verts (bm em0) ! mirr)"
          using ag by (simp add: apply_agree_def)
        then show ?thesis using False Some g f
          by (auto simp: mirror_apply_vert_def Let_def)
      qed
    qed
    have "\<forall>em. apply_agree sel_from em0 em \<longrightarrow>
           foldl (mirror_apply_vert sel_from sel_to) em (i # is) =
             foldl (\<lambda>e (k, c). set_vert_co e k c) em ws \<and>
           apply_agree sel_from em0 (foldl (mirror_apply_vert sel_from sel_to) em (i # is))"
    proof (intro allI impI)
      fix em assume ag: "apply_agree sel_from em0 em"
      from same[OF ag] have "foldl (mirror_apply_vert sel_from sel_to) em (i # is) =
          foldl (mirror_apply_vert sel_from sel_to) em is"
        by simp
      then show "foldl (mirror_apply_vert sel_from sel_to) em (i # is) =
             foldl (\<lambda>e (k, c). set_vert_co e k c) em ws \<and>
           apply_agree sel_from em0 (foldl (mirror_apply_vert sel_from sel_to) em (i # is))"
        using ws1[OF ag] ws2[OF ag] by (simp only:) 
    qed
    then show ?thesis by blast
  next
    case True
    then obtain mirr where fl: "uint (BM_elem_flag_test (v_hflag ?v0) BM_ELEM_SELECT) = sel_from"
      and gm: "EDBM_verts_mirror_get em0 ?v0 = Some mirr"
      and tm: "uint (BM_elem_flag_test (v_hflag (verts (bm em0) ! mirr)) BM_ELEM_SELECT) = sel_to"
      by blast
    from ok gm have mlt: "mirr < length (verts (bm em0))" by (rule mirror_get_lt)
    let ?c = "(co ?v0)[0 := (co ?v0 ! 0) * (-1)]"
    have stp: "mirror_apply_vert sel_from sel_to em i = set_vert_co em mirr ?c"
      if ag: "apply_agree sel_from em0 em" for em
    proof -
      have g: "EDBM_verts_mirror_get em (verts (bm em) ! i) = Some mirr"
        using apply_agree_get[OF ag i] gm by simp
      have f: "v_hflag (verts (bm em) ! i) = v_hflag ?v0"
        and c: "co (verts (bm em) ! i) = co ?v0"
        using ag i fl by (simp_all add: apply_agree_def)
      have fm: "v_hflag (verts (bm em) ! mirr) = v_hflag (verts (bm em0) ! mirr)"
        using ag mlt by (simp add: apply_agree_def)
      show ?thesis using g f c fm fl tm
        by (simp add: mirror_apply_vert_def Let_def)
    qed
    have agr: "apply_agree sel_from em0 (set_vert_co em mirr ?c)"
      if ag: "apply_agree sel_from em0 em" for em
      using ag mlt tm ne by (intro apply_agree_set) auto
    have "\<forall>em. apply_agree sel_from em0 em \<longrightarrow>
           foldl (mirror_apply_vert sel_from sel_to) em (i # is) =
             foldl (\<lambda>e (k, c). set_vert_co e k c) em ((mirr, ?c) # ws) \<and>
           apply_agree sel_from em0 (foldl (mirror_apply_vert sel_from sel_to) em (i # is))"
    proof (intro allI impI)
      fix em assume ag: "apply_agree sel_from em0 em"
      from stp[OF ag] have e1: "foldl (mirror_apply_vert sel_from sel_to) em (i # is) =
          foldl (mirror_apply_vert sel_from sel_to) (set_vert_co em mirr ?c) is"
        by simp
      have e2: "foldl (\<lambda>e (k, c). set_vert_co e k c) em ((mirr, ?c) # ws) =
          foldl (\<lambda>e (k, c). set_vert_co e k c) (set_vert_co em mirr ?c) ws"
        by simp
      show "foldl (mirror_apply_vert sel_from sel_to) em (i # is) =
             foldl (\<lambda>e (k, c). set_vert_co e k c) em ((mirr, ?c) # ws) \<and>
           apply_agree sel_from em0 (foldl (mirror_apply_vert sel_from sel_to) em (i # is))"
        using ws1[OF agr[OF ag]] ws2[OF agr[OF ag]] by (simp only: e1 e2)
    qed
    then show ?thesis by blast
  qed
qed


lemma writes_verts:
  "foldl (\<lambda>e (k, c). set_vert_co e k c) em ws =
   em\<lparr>bm := (bm em)\<lparr>verts :=
     foldl (\<lambda>vs (k, c). vs[k := (vs ! k)\<lparr>co := c\<rparr>]) (verts (bm em)) ws\<rparr>\<rparr>"
  by (induction ws arbitrary: em) (auto simp: set_vert_co_def)

lemma writes_length:
  "length (foldl (\<lambda>vs (k, c). vs[k := (vs ! k)\<lparr>co := c\<rparr>]) vs ws) = length (vs :: BMVert list)"
  by (induction ws arbitrary: vs) auto

lemma writes_nth:
  assumes "j < length (vs :: BMVert list)"
  shows "foldl (\<lambda>vs (k, c). vs[k := (vs ! k)\<lparr>co := c\<rparr>]) vs ws ! j =
         (case map_of (rev ws) j of None \<Rightarrow> vs ! j | Some c \<Rightarrow> (vs ! j)\<lparr>co := c\<rparr>)"
  using assms
proof (induction ws rule: rev_induct)
  case Nil
  then show ?case by simp
next
  case (snoc w ws)
  obtain k c where w: "w = (k, c)" by (cases w)
  from snoc show ?case
    by (auto simp: w writes_length nth_list_update split: option.splits)
qed

lemma writes_idem:
  "foldl (\<lambda>vs (k, c). vs[k := (vs ! k)\<lparr>co := c\<rparr>])
     (foldl (\<lambda>vs (k, c). vs[k := (vs ! k)\<lparr>co := c\<rparr>]) vs ws) ws =
   foldl (\<lambda>vs (k, c). vs[k := (vs ! k)\<lparr>co := c\<rparr>]) (vs :: BMVert list) ws"
  by (rule nth_equalityI) (auto simp: writes_length writes_nth split: option.splits)

lemma mirror_apply_twice:
  assumes ok: "vtable_ok em" and ne: "sel_from \<noteq> sel_to"
  shows "EDBM_verts_mirror_apply (EDBM_verts_mirror_apply em sel_from sel_to) sel_from sel_to =
         EDBM_verts_mirror_apply em sel_from sel_to"
proof -
  let ?n = "length (verts (bm em))"
  let ?W = "\<lambda>ws e. foldl (\<lambda>e (k, c). set_vert_co e k c) e ws"
  have "set [0..<?n] \<subseteq> {..<?n}" by auto
  from apply_as_writes[OF ok ne this] obtain ws where
    "\<forall>e. apply_agree sel_from em e \<longrightarrow>
           foldl (mirror_apply_vert sel_from sel_to) e [0..<?n] = ?W ws e \<and>
           apply_agree sel_from em (foldl (mirror_apply_vert sel_from sel_to) e [0..<?n])"
    by blast
  then have ws1: "\<And>e. apply_agree sel_from em e \<Longrightarrow>
           foldl (mirror_apply_vert sel_from sel_to) e [0..<?n] = ?W ws e"
    and ws2: "\<And>e. apply_agree sel_from em e \<Longrightarrow>
           apply_agree sel_from em (foldl (mirror_apply_vert sel_from sel_to) e [0..<?n])"
    by blast+
  let ?em1 = "EDBM_verts_mirror_apply em sel_from sel_to"
  have one: "?em1 = ?W ws em"
    using ws1[OF apply_agree_refl] by (simp only: EDBM_verts_mirror_apply_def)
  have ag1: "apply_agree sel_from em ?em1"
    using ws2[OF apply_agree_refl] by (simp only: EDBM_verts_mirror_apply_def)
  have n1: "length (verts (bm ?em1)) = ?n"
    using ag1 by (simp add: apply_agree_def)
  have "EDBM_verts_mirror_apply ?em1 sel_from sel_to =
      foldl (mirror_apply_vert sel_from sel_to) ?em1 [0..<?n]"
    by (simp only: EDBM_verts_mirror_apply_def[of ?em1] n1)
  also have "\<dots> = ?W ws ?em1"
    by (rule ws1[OF ag1])
  also have "\<dots> = ?W ws (?W ws em)" by (simp only: one[symmetric])
  also have "\<dots> = ?W ws em" by (simp add: writes_verts writes_idem)
  finally show ?thesis by (simp only: one[symmetric])
qed

text \<open>
  C7: applying \<^verbatim>\<open>EDBM_verts_mirror_apply\<close> with \<open>sel_from = 1\<close> (selected) and
  \<open>sel_to = 0\<close> (unselected) a second time changes nothing.  The vertex table is up to
  date, as the assertion at the head of the function demands.
\<close>

theorem mirror_apply_idempotent:
  assumes "vtable_ok em"
  shows "EDBM_verts_mirror_apply (EDBM_verts_mirror_apply em 1 0) 1 0 =
         EDBM_verts_mirror_apply em 1 0"
  using assms by (intro mirror_apply_twice) simp_all

theorem mirror_apply_idempotent_witness:
  "map co (verts (bm (EDBM_verts_mirror_apply em_session 1 0))) \<noteq> map co (verts (bm em_session)) \<and>
   EDBM_verts_mirror_apply (EDBM_verts_mirror_apply em_session 1 0) 1 0 =
   EDBM_verts_mirror_apply em_session 1 0"
proof -
  have ok: "vtable_ok em_session"
    by code_simp
  have ch: "map co (verts (bm (EDBM_verts_mirror_apply em_session 1 0))) \<noteq>
            map co (verts (bm em_session))"
    by code_simp
  from mirror_apply_idempotent [OF ok] ch show ?thesis by simp
qed

subsection \<open>Mirror edges and faces\<close>







section \<open>Properties of the per-vertex merge\<close>

lemma uv_merge_inner_eq:
  "uv_merge_inner c xs kept nl = (kept @ filter (\<lambda>x. \<not> c x) xs, rev (filter c xs) @ nl)"
  by (induction xs arbitrary: kept nl) auto

lemma uv_merge_chain:
  "snd (uv_merge conn mark buf vlist nl) = concat (rev (map rev (uv_spec_groups conn vlist))) @ nl"
proof (induction conn vlist arbitrary: buf nl rule: uv_spec_groups.induct)
  case (1 conn)
  then show ?case by simp
next
  case (2 conn v remaining)
  show ?case
    by (simp add: uv_merge_inner_eq "2.IH")
qed

lemma uv_merge_length:
  "length (fst (uv_merge conn mark buf vlist nl)) = length buf"
proof (induction conn vlist arbitrary: buf nl rule: uv_spec_groups.induct)
  case (1 conn)
  then show ?case by simp
next
  case (2 conn v remaining)
  show ?case
    by (simp add: uv_merge_inner_eq "2.IH")
qed

lemma uv_merge_buf:
  assumes idem: "\<And>e. mark (mark e) = mark e"
  shows "k < length buf \<Longrightarrow>
    fst (uv_merge conn mark buf vlist nl) ! k =
      (if k \<in> last ` set (uv_spec_groups conn vlist) then mark (buf ! k) else buf ! k)"
proof (induction conn vlist arbitrary: buf nl rule: uv_spec_groups.induct)
  case (1 conn)
  then show ?case by simp
next
  case (2 conn v remaining)
  let ?g = "v # filter (conn v) remaining"
  have hd: "hd (rev (filter (conn v) remaining) @ v # nl) = last ?g"
    by (cases "filter (conn v) remaining" rule: rev_cases) auto
  let ?buf = "buf[last ?g := mark (buf ! last ?g)]"
  have "fst (uv_merge conn mark buf (v # remaining) nl) ! k =
        fst (uv_merge conn mark ?buf (filter (\<lambda>x. \<not> conn v x) remaining)
               (rev (filter (conn v) remaining) @ v # nl)) ! k"
    by (simp only: uv_merge.simps uv_merge_inner_eq split hd append_Nil)
  also have "\<dots> = (if k \<in> last ` set (uv_spec_groups conn (filter (\<lambda>x. \<not> conn v x) remaining))
                    then mark (?buf ! k) else ?buf ! k)"
    using "2.prems" by (intro "2.IH") simp
  also have "\<dots> = (if k \<in> last ` set (uv_spec_groups conn (v # remaining))
                    then mark (buf ! k) else buf ! k)"
  proof (cases "k = last ?g")
    case True
    then show ?thesis using "2.prems" idem by (simp del: last.simps)
  next
    case False
    then show ?thesis using "2.prems" by (simp del: last.simps)
  qed
  finally show ?case .
qed

lemma uv_spec_groups_nonempty: "g \<in> set (uv_spec_groups conn vlist) \<Longrightarrow> g \<noteq> []"
  by (induction conn vlist rule: uv_spec_groups.induct) auto

lemma uv_spec_groups_set: "set (concat (uv_spec_groups conn vlist)) = set vlist"
  by (induction conn vlist rule: uv_spec_groups.induct) auto

lemma uv_spec_groups_distinct:
  "distinct vlist \<Longrightarrow> distinct (concat (uv_spec_groups conn vlist))"
proof (induction conn vlist rule: uv_spec_groups.induct)
  case (1 conn)
  then show ?case by simp
next
  case (2 conn v remaining)
  then show ?case
    by (auto simp: uv_spec_groups_set simp del: set_concat)
qed

lemma uv_subgroups_hd:
  "xs \<noteq> [] \<Longrightarrow> uv_subgroups sep xs \<noteq> [] \<and> hd (uv_subgroups sep xs) \<noteq> [] \<and>
     hd (hd (uv_subgroups sep xs)) = hd xs"
  by (cases xs) (auto split: list.splits)

lemma uv_subgroups_segment:
  "\<forall>x\<in>set t. \<not> sep x \<Longrightarrow> rest = [] \<or> sep (hd rest) \<Longrightarrow>
   uv_subgroups sep (y # t @ rest) = (y # t) # uv_subgroups sep rest"
proof (induction t arbitrary: y)
  case Nil
  then show ?case
    using uv_subgroups_hd[of rest sep] by (cases rest) (auto split: list.splits)
next
  case (Cons a t)
  then have "uv_subgroups sep (a # t @ rest) = (a # t) # uv_subgroups sep rest"
    by simp
  with Cons.prems show ?case by simp
qed

lemma uv_subgroups_concat:
  "\<forall>s\<in>set segs. s \<noteq> [] \<and> sep (hd s) \<and> (\<forall>x\<in>set (tl s). \<not> sep x) \<Longrightarrow>
   uv_subgroups sep (concat segs) = segs"
proof (induction segs)
  case Nil
  then show ?case by simp
next
  case (Cons s segs)
  then obtain y t where s: "s = y # t" by (cases s) auto
  have rest: "concat segs = [] \<or> sep (hd (concat segs))"
  proof (cases segs)
    case Nil
    then show ?thesis by simp
  next
    case (Cons s' segs')
    with Cons.prems show ?thesis by (cases s') auto
  qed
  from Cons.prems s have "\<forall>x\<in>set t. \<not> sep x" by simp
  from uv_subgroups_segment[OF this rest, of y] Cons show ?case
    by (simp add: s)
qed


lemma uv_chains_ok_push:
  assumes ok: "uv_chains_ok n vert"
  shows "uv_chains_ok (Suc n) (vert[v := n # vert ! v])"
proof (cases "v < length vert")
  case False
  then have "vert[v := n # vert ! v] = vert"
    by (intro list_update_beyond) simp
  with ok show ?thesis by (auto simp: uv_chains_ok_def less_Suc_eq)
next
  case v: True
  have fresh: "\<And>c. c < length vert \<Longrightarrow> n \<notin> set (vert ! c)"
    using ok by (auto simp: uv_chains_ok_def)
  show ?thesis
    unfolding uv_chains_ok_def
  proof (intro conjI allI impI)
    fix a assume a: "a < length (vert[v := n # vert ! v])"
    show "distinct (vert[v := n # vert ! v] ! a)"
      using ok a v fresh[of a] by (auto simp: uv_chains_ok_def nth_list_update)
    show "\<forall>k\<in>set (vert[v := n # vert ! v] ! a). k < Suc n"
      using ok a v by (auto simp: uv_chains_ok_def nth_list_update less_Suc_eq)
  next
    fix a b assume a: "a < length (vert[v := n # vert ! v])"
      and b: "b < length (vert[v := n # vert ! v])" and ab: "a \<noteq> b"
    show "set (vert[v := n # vert ! v] ! a) \<inter> set (vert[v := n # vert ! v] ! b) = {}"
      using ok a b ab v fresh[of a] fresh[of b]
      by (auto simp: uv_chains_ok_def nth_list_update)
  qed
qed

lemma uv_sort_fold:
  assumes idem: "\<And>e. mark (mark e) = mark e"
    and rng: "\<forall>a<length vert. \<forall>k\<in>set (vert ! a). k < length buf"
    and j: "j \<le> length vert"
  shows "length (fst (foldl (uv_sort_vert conn mark) (buf, vert) [0..<j])) = length buf \<and>
    length (snd (foldl (uv_sort_vert conn mark) (buf, vert) [0..<j])) = length vert \<and>
    (\<forall>a<length vert. snd (foldl (uv_sort_vert conn mark) (buf, vert) [0..<j]) ! a =
       (if a < j then concat (rev (map rev (uv_spec_groups conn (vert ! a)))) else vert ! a)) \<and>
    (\<forall>k<length buf. fst (foldl (uv_sort_vert conn mark) (buf, vert) [0..<j]) ! k =
       (if \<exists>a<j. k \<in> last ` set (uv_spec_groups conn (vert ! a)) then mark (buf ! k)
        else buf ! k))"
  using j
proof (induction j)
  case 0
  then show ?case by simp
next
  case (Suc j)
  let ?st = "foldl (uv_sort_vert conn mark) (buf, vert) [0..<j]"
  from Suc have IH1: "length (fst ?st) = length buf" and IH2: "length (snd ?st) = length vert"
    and IH3: "\<forall>a<length vert. snd ?st ! a =
       (if a < j then concat (rev (map rev (uv_spec_groups conn (vert ! a)))) else vert ! a)"
    and IH4: "\<forall>k<length buf. fst ?st ! k =
       (if \<exists>a<j. k \<in> last ` set (uv_spec_groups conn (vert ! a)) then mark (buf ! k)
        else buf ! k)"
    by simp_all
  have jn: "j < length vert" using Suc.prems by simp
  have cj: "snd ?st ! j = vert ! j" using IH3 jn by simp
  have step: "foldl (uv_sort_vert conn mark) (buf, vert) [0..<Suc j] =
      (fst (uv_merge conn mark (fst ?st) (vert ! j) []),
       (snd ?st)[j := snd (uv_merge conn mark (fst ?st) (vert ! j) [])])"
    by (simp add: uv_sort_vert_def cj case_prod_beta)
  show ?case
  proof (intro conjI allI impI)
    show "length (fst (foldl (uv_sort_vert conn mark) (buf, vert) [0..<Suc j])) = length buf"
      by (simp only: step fst_conv uv_merge_length IH1)
    show "length (snd (foldl (uv_sort_vert conn mark) (buf, vert) [0..<Suc j])) = length vert"
      by (simp only: step snd_conv length_list_update IH2)
  next
    fix a assume a: "a < length vert"
    show "snd (foldl (uv_sort_vert conn mark) (buf, vert) [0..<Suc j]) ! a =
       (if a < Suc j then concat (rev (map rev (uv_spec_groups conn (vert ! a)))) else vert ! a)"
      using a jn IH2 IH3
      by (simp only: step snd_conv) (auto simp: nth_list_update uv_merge_chain less_Suc_eq)
  next
    fix k assume k: "k < length buf"
    have "fst (foldl (uv_sort_vert conn mark) (buf, vert) [0..<Suc j]) ! k =
        (if k \<in> last ` set (uv_spec_groups conn (vert ! j)) then mark (fst ?st ! k)
         else fst ?st ! k)"
      using k IH1 by (simp only: step fst_conv) (rule uv_merge_buf[OF idem], simp)
    also have "\<dots> = (if \<exists>a<Suc j. k \<in> last ` set (uv_spec_groups conn (vert ! a))
        then mark (buf ! k) else buf ! k)"
      using IH4 k idem by (auto simp: less_Suc_eq)
    finally show "fst (foldl (uv_sort_vert conn mark) (buf, vert) [0..<Suc j]) ! k =
       (if \<exists>a<Suc j. k \<in> last ` set (uv_spec_groups conn (vert ! a)) then mark (buf ! k)
        else buf ! k)" .
  qed
qed

lemma uv_spec_groups_last_unique:
  assumes d: "distinct vlist" and g: "g \<in> set (uv_spec_groups conn vlist)"
    and g': "g' \<in> set (uv_spec_groups conn vlist)" and x: "x \<in> set (butlast g)"
  shows "x \<noteq> last g'"
proof
  assume e: "x = last g'"
  have dc: "distinct (concat (uv_spec_groups conn vlist))"
    using d by (rule uv_spec_groups_distinct)
  have ne: "g' \<noteq> []" using g' by (rule uv_spec_groups_nonempty)
  have xg: "x \<in> set g" using x by (rule in_set_butlastD)
  have xg': "x \<in> set g'" using e ne by simp
  have "g = g'"
    using dc g g' xg xg' by (auto simp: distinct_concat_iff)
  moreover have "distinct g" using dc g by (auto simp: distinct_concat_iff)
  ultimately show False
    using x e ne by (metis append_butlast_last_id distinct_butlast not_distinct_conv_prefix
        distinct_append disjoint_iff list.set_intros(1) list.simps(15) set_append insert_iff)
qed

lemma uv_spec_groups_head:
  "g \<in> set (uv_spec_groups conn vlist) \<Longrightarrow> x \<in> set (tl g) \<Longrightarrow> conn (hd g) x"
  by (induction conn vlist rule: uv_spec_groups.induct) auto

lemma uv_spec_groups_subset:
  "g \<in> set (uv_spec_groups conn vlist) \<Longrightarrow> set g \<subseteq> set vlist"
  using uv_spec_groups_set[of conn vlist] by auto

lemma uv_spec_groups_later:
  "j < length (uv_spec_groups conn vlist) \<Longrightarrow> i < j \<Longrightarrow>
   y \<in> set (uv_spec_groups conn vlist ! j) \<Longrightarrow>
   \<not> conn (hd (uv_spec_groups conn vlist ! i)) y"
proof (induction conn vlist arbitrary: i j rule: uv_spec_groups.induct)
  case (1 conn)
  then show ?case by simp
next
  case (2 conn v remaining)
  let ?rest = "uv_spec_groups conn (filter (\<lambda>x. \<not> conn v x) remaining)"
  obtain j' where j: "j = Suc j'" using "2.prems"(2) by (cases j) auto
  have j'len: "j' < length ?rest" using "2.prems"(1) j by simp
  have y: "y \<in> set (?rest ! j')" using "2.prems"(3) j by simp
  show ?case
  proof (cases i)
    case 0
    have "?rest ! j' \<in> set ?rest" using j'len by simp
    from uv_spec_groups_subset[OF this] y have "\<not> conn v y" by auto
    then show ?thesis using 0 by simp
  next
    case (Suc i')
    then have "i' < j'" using "2.prems"(2) j by simp
    from "2.IH"[OF j'len this y] show ?thesis using Suc by simp
  qed
qed

lemma uv_spec_groups_together:
  "(\<forall>z. conn z x = conn z y) \<Longrightarrow> conn x y \<Longrightarrow> conn y x \<Longrightarrow>
   x \<in> set vlist \<Longrightarrow> y \<in> set vlist \<Longrightarrow>
   \<exists>g\<in>set (uv_spec_groups conn vlist). x \<in> set g \<and> y \<in> set g"
proof (induction conn vlist rule: uv_spec_groups.induct)
  case (1 conn)
  then show ?case by simp
next
  case (2 conn v remaining)
  show ?case
  proof (cases "x = v \<or> y = v \<or> conn v x")
    case True
    then have "x \<in> set (v # filter (conn v) remaining) \<and> y \<in> set (v # filter (conn v) remaining)"
      using "2.prems" by auto
    then show ?thesis by auto
  next
    case False
    then have "x \<in> set (filter (\<lambda>x. \<not> conn v x) remaining)"
      and "y \<in> set (filter (\<lambda>x. \<not> conn v x) remaining)"
      using "2.prems" by auto
    from "2.IH"[OF "2.prems"(1-3) this] show ?thesis by auto
  qed
qed

text \<open>
  After the sort, the subgroups read off the chain of a vertex are the spec's subgroups
  of the chain as filled, each in reverse and in reverse order.
\<close>

lemma uv_sort_subgroups:
  assumes idem: "\<And>e. mark (mark e) = mark e" and sm: "\<And>e. sep (mark e)"
    and ok: "uv_chains_ok (length buf) vert"
    and flags: "\<forall>k<length buf. \<not> sep (buf ! k)"
    and a: "a < length vert"
  shows "uv_subgroups (\<lambda>k. sep (fst (foldl (uv_sort_vert conn mark) (buf, vert) [0..<length vert]) ! k))
           (snd (foldl (uv_sort_vert conn mark) (buf, vert) [0..<length vert]) ! a) =
         rev (map rev (uv_spec_groups conn (vert ! a)))"
proof -
  let ?st = "foldl (uv_sort_vert conn mark) (buf, vert) [0..<length vert]"
  let ?G = "\<lambda>b. uv_spec_groups conn (vert ! b)"
  have rng: "\<forall>a<length vert. \<forall>k\<in>set (vert ! a). k < length buf"
    using ok by (simp add: uv_chains_ok_def)
  from uv_sort_fold[OF idem rng order_refl, of conn]
  have chain: "snd ?st ! a = concat (rev (map rev (?G a)))"
    and bufk: "\<And>k. k < length buf \<Longrightarrow> fst ?st ! k =
       (if \<exists>b<length vert. k \<in> last ` set (?G b) then mark (buf ! k) else buf ! k)"
    using a by simp_all
  have da: "distinct (vert ! a)" using ok a by (simp add: uv_chains_ok_def)
  have seg: "s \<noteq> [] \<and> sep (fst ?st ! hd s) \<and> (\<forall>x\<in>set (tl s). \<not> sep (fst ?st ! x))"
    if s: "s \<in> set (rev (map rev (?G a)))" for s
  proof -
    from s obtain g where g: "g \<in> set (?G a)" and sg: "s = rev g" by auto
    have gne: "g \<noteq> []" using g by (rule uv_spec_groups_nonempty)
    have sub: "set g \<subseteq> set (vert ! a)" using g by (rule uv_spec_groups_subset)
    have hd: "hd s = last g" using sg gne by (simp add: hd_rev)
    have "last g \<in> set (vert ! a)" using sub gne by auto
    then have ll: "last g < length buf" using rng a by simp
    have "fst ?st ! last g = mark (buf ! last g)"
      using bufk[OF ll] g a by auto
    then have h1: "sep (fst ?st ! hd s)" using sm hd by simp
    have h2: "\<not> sep (fst ?st ! x)" if x: "x \<in> set (tl s)" for x
    proof -
      have xb: "x \<in> set (butlast g)" using x sg by (cases g rule: rev_cases) auto
      then have xa: "x \<in> set (vert ! a)" using sub by (auto dest: in_set_butlastD)
      then have xl: "x < length buf" using rng a by simp
      have "\<not> (\<exists>b<length vert. x \<in> last ` set (?G b))"
      proof
        assume "\<exists>b<length vert. x \<in> last ` set (?G b)"
        then obtain b g' where b: "b < length vert" and g': "g' \<in> set (?G b)" and e: "x = last g'"
          by auto
        have "g' \<noteq> []" using g' by (rule uv_spec_groups_nonempty)
        then have "x \<in> set g'" using e by simp
        then have xb': "x \<in> set (vert ! b)" using uv_spec_groups_subset[OF g'] by auto
        have "b = a"
        proof (rule ccontr)
          assume "b \<noteq> a"
          then have "set (vert ! a) \<inter> set (vert ! b) = {}"
            using ok a b by (simp add: uv_chains_ok_def)
          with xa xb' show False by auto
        qed
        with g' have "g' \<in> set (?G a)" by simp
        from uv_spec_groups_last_unique[OF da g this xb] e show False by simp
      qed
      then have "fst ?st ! x = buf ! x" using bufk[OF xl] by (simp only: if_False)
      then show ?thesis using flags xl by simp
    qed
    from gne sg h1 h2 show ?thesis by simp
  qed
  have "uv_subgroups (\<lambda>k. sep (fst ?st ! k)) (concat (rev (map rev (?G a)))) =
        rev (map rev (?G a))"
    by (rule uv_subgroups_concat) (use seg in blast)
  then show ?thesis by (simp only: chain)
qed

section \<open>Properties of the UV vertex map\<close>

subsection \<open>Empty input\<close>

lemma uv_vert_count_none:
  "\<forall>f\<in>set fs. BM_elem_flag_test (f_hflag f) BM_ELEM_SELECT = 0 \<Longrightarrow>
   uv_vert_count True fs totuv = totuv"
  by (induction fs arbitrary: totuv) (auto simp: face_passes_def)

lemma uv_element_count_none:
  "\<forall>f\<in>set fs. BM_elem_flag_test (f_hflag f) BM_ELEM_SELECT = 0 \<Longrightarrow>
   uv_element_count True uv_selected fs totuv = totuv"
  by (induction fs arbitrary: totuv) (auto simp: face_passes_def)

lemma uv_vert_map_create_zero:
  "uv_vert_count use_select (faces m) 0 = 0 \<Longrightarrow>
   BM_uv_vert_map_create m use_select use_winding = None"
  unfolding BM_uv_vert_map_create_def by (simp only: simp_thms if_True)

lemma uv_element_map_create_zero:
  "uv_element_count face_selected uv_selected (faces m) 0 = 0 \<Longrightarrow>
   BM_uv_element_map_create m stale face_selected uv_selected use_winding do_islands = None"
  unfolding BM_uv_element_map_create_def by (simp only: Let_def simp_thms if_True)

text \<open>
  C6: when the face filter is on and no face is selected, no corner is counted, and both
  \<^verbatim>\<open>BM_uv_vert_map_create\<close> and \<^verbatim>\<open>BM_uv_element_map_create\<close> return NULL before anything
  is built.
\<close>

theorem uv_map_empty:
  "(use_select \<and> (\<forall>f\<in>set (faces m). BM_elem_flag_test (f_hflag f) BM_ELEM_SELECT = 0) \<longrightarrow>
      BM_uv_vert_map_create m use_select use_winding = None) \<and>
   (face_selected \<and> (\<forall>f\<in>set (faces m). BM_elem_flag_test (f_hflag f) BM_ELEM_SELECT = 0) \<longrightarrow>
      BM_uv_element_map_create m stale face_selected uv_selected use_winding do_islands = None)"
proof (intro conjI impI)
  assume "use_select \<and> (\<forall>f\<in>set (faces m). BM_elem_flag_test (f_hflag f) BM_ELEM_SELECT = 0)"
  then have "uv_vert_count use_select (faces m) 0 = 0"
    using uv_vert_count_none[of "faces m" 0] by simp
  then show "BM_uv_vert_map_create m use_select use_winding = None"
    by (rule uv_vert_map_create_zero)
next
  assume "face_selected \<and> (\<forall>f\<in>set (faces m). BM_elem_flag_test (f_hflag f) BM_ELEM_SELECT = 0)"
  then have "uv_element_count face_selected uv_selected (faces m) 0 = 0"
    using uv_element_count_none[of "faces m" uv_selected 0] by simp
  then show "BM_uv_element_map_create m stale face_selected uv_selected use_winding do_islands = None"
    by (rule uv_element_map_create_zero)
qed

theorem uv_map_empty_witness:
  "BM_uv_vert_map_create uv_unselected True False = None \<and>
   BM_uv_element_map_create uv_unselected no_stale True False False True = None \<and>
   BM_uv_vert_map_create uv_unselected False False \<noteq> None"
proof -
  have h: "\<forall>f\<in>set (faces uv_unselected). BM_elem_flag_test (f_hflag f) BM_ELEM_SELECT = 0"
    by (simp add: uv_unselected_def mk_bm_def mk_face_def BM_elem_flag_test_def)
  have n: "BM_uv_vert_map_create uv_unselected False False \<noteq> None"
    by code_simp
  from uv_map_empty [of True uv_unselected False True no_stale False True] h n
  show ?thesis by simp
qed

subsection \<open>The fill\<close>

lemma uv_vert_fill_loops_inv:
  "uv_chains_ok (length buf) vert \<Longrightarrow> \<forall>e\<in>set buf. \<not> separate e \<Longrightarrow>
   uv_chains_ok (length (fst (uv_vert_fill_loops a i ls (buf, vert))))
     (snd (uv_vert_fill_loops a i ls (buf, vert))) \<and>
   length (snd (uv_vert_fill_loops a i ls (buf, vert))) = length vert \<and>
   (\<forall>e\<in>set (fst (uv_vert_fill_loops a i ls (buf, vert))). \<not> separate e)"
proof (induction ls arbitrary: i buf vert)
  case Nil
  then show ?case by simp
next
  case (Cons l ls)
  define buf' where "buf' = buf @ [\<lparr>poly_index = a, loop_of_poly_index = i, separate = False\<rparr>]"
  define vert' where "vert' = vert[l_v l := length buf # vert ! l_v l]"
  have step: "uv_vert_fill_loops a i (l # ls) (buf, vert) =
      uv_vert_fill_loops a (i + 1) ls (buf', vert')"
    by (simp add: buf'_def vert'_def)
  have lb: "length buf' = Suc (length buf)" by (simp add: buf'_def)
  have lv: "length vert' = length vert" by (simp add: vert'_def)
  have ok: "uv_chains_ok (length buf') vert'"
    unfolding lb vert'_def by (rule uv_chains_ok_push[OF Cons.prems(1)])
  have fl: "\<forall>e\<in>set buf'. \<not> separate e"
    using Cons.prems(2) by (simp add: buf'_def)
  from Cons.IH[OF ok fl, of "i + 1"] show ?case
    unfolding step lv .
qed

lemma uv_vert_fill_faces_inv:
  "uv_chains_ok (length (fst st)) (snd st) \<Longrightarrow> \<forall>e\<in>set (fst st). \<not> separate e \<Longrightarrow>
   uv_chains_ok (length (fst (uv_vert_fill_faces use_select a fs st)))
     (snd (uv_vert_fill_faces use_select a fs st)) \<and>
   length (snd (uv_vert_fill_faces use_select a fs st)) = length (snd st) \<and>
   (\<forall>e\<in>set (fst (uv_vert_fill_faces use_select a fs st)). \<not> separate e)"
proof (induction fs arbitrary: a st)
  case Nil
  then show ?case by simp
next
  case (Cons efa fs)
  obtain buf vert where st: "st = (buf, vert)" by (cases st)
  show ?case
  proof (cases "face_passes use_select efa")
    case True
    let ?st = "uv_vert_fill_loops a 0 (f_loops efa) (buf, vert)"
    from uv_vert_fill_loops_inv[of buf vert a 0 "f_loops efa"] Cons.prems
    have "uv_chains_ok (length (fst ?st)) (snd ?st)" and "\<forall>e\<in>set (fst ?st). \<not> separate e"
      and "length (snd ?st) = length vert"
      by (simp_all add: st)
    with Cons.IH[of ?st "a + 1"] True show ?thesis by (simp add: st)
  next
    case False
    with Cons.IH[of st "a + 1"] Cons.prems show ?thesis by simp
  qed
qed

lemma uv_vert_filled_inv:
  "uv_chains_ok (length (fst (uv_vert_filled m use_select))) (snd (uv_vert_filled m use_select)) \<and>
   length (snd (uv_vert_filled m use_select)) = length (verts m) \<and>
   (\<forall>e\<in>set (fst (uv_vert_filled m use_select)). \<not> separate e)"
  unfolding uv_vert_filled_def
  using uv_vert_fill_faces_inv[of "([], replicate (length (verts m)) [])" use_select 0 "faces m"]
  by (simp add: uv_chains_ok_def)

subsection \<open>Subgroups of the vertex map\<close>

lemma uv_vert_map_create_Some:
  assumes "BM_uv_vert_map_create m use_select use_winding = Some vmap"
  shows "vmap_buf vmap = fst (foldl
           (uv_sort_vert (uv_vert_connected m use_winding (uv_vert_winding use_select (faces m))
                            (fst (uv_vert_filled m use_select)))
              (\<lambda>v. v\<lparr>separate := True\<rparr>))
           (uv_vert_filled m use_select) [0..<length (verts m)])"
    and "vmap_vert vmap = snd (foldl
           (uv_sort_vert (uv_vert_connected m use_winding (uv_vert_winding use_select (faces m))
                            (fst (uv_vert_filled m use_select)))
              (\<lambda>v. v\<lparr>separate := True\<rparr>))
           (uv_vert_filled m use_select) [0..<length (verts m)])"
proof -
  have nz: "uv_vert_count use_select (faces m) 0 \<noteq> 0"
    using assms uv_vert_map_create_zero[of use_select m use_winding] by auto
  from assms have "Some vmap = (let filled = uv_vert_filled m use_select;
             winding = uv_vert_winding use_select (faces m);
             sorted = foldl
                        (uv_sort_vert (uv_vert_connected m use_winding winding (fst filled))
                           (\<lambda>v. v\<lparr>separate := True\<rparr>))
                        filled [0..<length (verts m)]
         in Some \<lparr>vmap_vert = snd sorted, vmap_buf = fst sorted\<rparr>)"
    unfolding BM_uv_vert_map_create_def by (simp only: nz if_False)
  then have e: "vmap = \<lparr>vmap_vert = snd (foldl
           (uv_sort_vert (uv_vert_connected m use_winding (uv_vert_winding use_select (faces m))
                            (fst (uv_vert_filled m use_select)))
              (\<lambda>v. v\<lparr>separate := True\<rparr>))
           (uv_vert_filled m use_select) [0..<length (verts m)]),
        vmap_buf = fst (foldl
           (uv_sort_vert (uv_vert_connected m use_winding (uv_vert_winding use_select (faces m))
                            (fst (uv_vert_filled m use_select)))
              (\<lambda>v. v\<lparr>separate := True\<rparr>))
           (uv_vert_filled m use_select) [0..<length (verts m)])\<rparr>"
    by (simp only: Let_def option.inject)
  show "vmap_buf vmap = fst (foldl
           (uv_sort_vert (uv_vert_connected m use_winding (uv_vert_winding use_select (faces m))
                            (fst (uv_vert_filled m use_select)))
              (\<lambda>v. v\<lparr>separate := True\<rparr>))
           (uv_vert_filled m use_select) [0..<length (verts m)])"
    by (subst e) simp
  show "vmap_vert vmap = snd (foldl
           (uv_sort_vert (uv_vert_connected m use_winding (uv_vert_winding use_select (faces m))
                            (fst (uv_vert_filled m use_select)))
              (\<lambda>v. v\<lparr>separate := True\<rparr>))
           (uv_vert_filled m use_select) [0..<length (verts m)])"
    by (subst e) simp
qed

lemma compare_v2v2_same: "compare_v2v2 u u STD_UV_CONNECT_LIMIT"
  by (simp add: compare_v2v2_def STD_UV_CONNECT_LIMIT_def)

text \<open>
  C4, amended: in the per-vertex merge pass of \<^verbatim>\<open>BM_uv_vert_map_create\<close> a member is
  compared with the popped head only.  The subgroups read off the finished chain of a
  vertex are the spec's subgroups of the chain as filled (each reversed, in reverse
  order): every subgroup is a popped head together with exactly those members still in
  the list that pass the test against the head (UV coordinates less than the tolerance
  apart in both axes and, with \<open>use_winding\<close>, equal winding flags), and the members of
  later subgroups failed the test against that head.  With \<open>use_winding\<close> all members of
  a subgroup have the same winding flag, so coincident UVs on faces of opposite winding
  are not merged; members with equal UV coordinates (and equal winding flags when
  \<open>use_winding\<close> is set) are in the same subgroup.
\<close>

theorem uv_vert_map_subgroups:
  assumes cr: "BM_uv_vert_map_create m use_select use_winding = Some vmap"
    and a: "a < length (verts m)"
  shows "let buf = fst (uv_vert_filled m use_select);
             winding = uv_vert_winding use_select (faces m);
             conn = uv_vert_connected m use_winding winding buf;
             groups = uv_spec_groups conn (snd (uv_vert_filled m use_select) ! a)
         in uv_vert_subgroups vmap a = rev (map rev groups) \<and>
            (\<forall>g\<in>set groups. \<forall>x\<in>set (tl g). conn (hd g) x) \<and>
            (\<forall>j<length groups. \<forall>i<j. \<forall>y\<in>set (groups ! j). \<not> conn (hd (groups ! i)) y) \<and>
            (use_winding \<longrightarrow>
               (\<forall>g\<in>set groups. \<forall>x\<in>set g. \<forall>y\<in>set g.
                  winding ! poly_index (buf ! x) = winding ! poly_index (buf ! y))) \<and>
            (\<forall>x\<in>set (snd (uv_vert_filled m use_select) ! a).
             \<forall>y\<in>set (snd (uv_vert_filled m use_select) ! a).
               uv_vert_uv m (buf ! x) = uv_vert_uv m (buf ! y) \<and>
               (use_winding \<longrightarrow>
                  winding ! poly_index (buf ! x) = winding ! poly_index (buf ! y)) \<longrightarrow>
               (\<exists>g\<in>set groups. x \<in> set g \<and> y \<in> set g))"
proof -
  define buf where "buf = fst (uv_vert_filled m use_select)"
  define vert where "vert = snd (uv_vert_filled m use_select)"
  define winding where "winding = uv_vert_winding use_select (faces m)"
  define conn where "conn = uv_vert_connected m use_winding winding buf"
  define groups where "groups = uv_spec_groups conn (vert ! a)"
  have filled: "uv_vert_filled m use_select = (buf, vert)"
    by (simp add: buf_def vert_def)
  from uv_vert_filled_inv[of m use_select]
  have ok: "uv_chains_ok (length buf) vert" and lv: "length vert = length (verts m)"
    and fl: "\<forall>k<length buf. \<not> separate (buf ! k)"
    by (simp_all add: buf_def vert_def)
  have mk: "\<And>e :: UvMapVert. e\<lparr>separate := True\<rparr>\<lparr>separate := True\<rparr> = e\<lparr>separate := True\<rparr>"
    by simp
  have sm: "\<And>e :: UvMapVert. separate (e\<lparr>separate := True\<rparr>)"
    by simp
  have a': "a < length vert" using a lv by simp
  have p1: "uv_vert_subgroups vmap a = rev (map rev groups)"
    unfolding uv_vert_subgroups_def uv_vert_map_create_Some[OF cr] filled fst_conv
      winding_def[symmetric] conn_def[symmetric] groups_def lv[symmetric]
    by (rule uv_sort_subgroups[OF mk sm ok fl a'])
  have p2: "\<forall>g\<in>set groups. \<forall>x\<in>set (tl g). conn (hd g) x"
    unfolding groups_def using uv_spec_groups_head by blast
  have p3: "\<forall>j<length groups. \<forall>i<j. \<forall>y\<in>set (groups ! j). \<not> conn (hd (groups ! i)) y"
    unfolding groups_def using uv_spec_groups_later by blast
  have p4: "winding ! poly_index (buf ! x) = winding ! poly_index (buf ! y)"
    if uw: use_winding and g: "g \<in> set groups" and x: "x \<in> set g" and y: "y \<in> set g" for g x y
  proof -
    have gne: "g \<noteq> []" using g unfolding groups_def by (rule uv_spec_groups_nonempty)
    have h: "winding ! poly_index (buf ! z) = winding ! poly_index (buf ! hd g)"
      if z: "z \<in> set g" for z
    proof (cases "z = hd g")
      case True
      then show ?thesis by simp
    next
      case False
      with z gne have "z \<in> set (tl g)" by (cases g) auto
      with p2 g have "conn (hd g) z" by blast
      then show ?thesis using uw by (simp add: conn_def uv_vert_connected_def)
    qed
    from h[OF x] h[OF y] show ?thesis by simp
  qed
  have p5: "\<exists>g\<in>set groups. x \<in> set g \<and> y \<in> set g"
    if x: "x \<in> set (vert ! a)" and y: "y \<in> set (vert ! a)"
      and uv: "uv_vert_uv m (buf ! x) = uv_vert_uv m (buf ! y)"
      and w: "use_winding \<longrightarrow> winding ! poly_index (buf ! x) = winding ! poly_index (buf ! y)"
    for x y
  proof -
    have c1: "\<forall>z. conn z x = conn z y"
      using uv w by (auto simp: conn_def uv_vert_connected_def)
    have c2: "conn x y" and c3: "conn y x"
      using uv w compare_v2v2_same by (auto simp: conn_def uv_vert_connected_def)
    from uv_spec_groups_together[OF c1 c2 c3 x y] show ?thesis
      by (simp add: groups_def)
  qed
  from p1 p2 p3 p4 p5 show ?thesis
    unfolding Let_def buf_def[symmetric] vert_def[symmetric] winding_def[symmetric]
      conn_def[symmetric] groups_def[symmetric]
    by blast
qed


text \<open>
  C4, as stated, fails: around vertex 0 of the fan the corners have U coordinates 0,
  0.00012 and 0.00006.  The corner at 0.00006 is popped first and both others are within
  the tolerance 0.0001 of it, so all three end in one subgroup, although the corners at 0
  and 0.00012 (buffer entries 0 and 3) are further apart than the tolerance.
\<close>

theorem uv_merge_tolerance_counterexample:
  "uv_vert_subgroups (the (BM_uv_vert_map_create uv_fan False False)) 0 = [[0, 3, 6]] \<and>
   \<not> compare_v2v2
        (uv_vert_uv uv_fan (vmap_buf (the (BM_uv_vert_map_create uv_fan False False)) ! 0))
        (uv_vert_uv uv_fan (vmap_buf (the (BM_uv_vert_map_create uv_fan False False)) ! 3))
        STD_UV_CONNECT_LIMIT"
  by code_simp

theorem uv_vert_map_subgroups_witness:
  "uv_vert_subgroups (the (BM_uv_vert_map_create uv_flip False True)) 0 = [[0], [3]] \<and>
   uv_vert_subgroups (the (BM_uv_vert_map_create uv_flip False False)) 0 = [[0, 3]]"
proof -
  have a: "0 < length (verts uv_flip)"
    by code_simp
  have c1: "BM_uv_vert_map_create uv_flip False True =
            Some (the (BM_uv_vert_map_create uv_flip False True))"
    by code_simp
  have c2: "BM_uv_vert_map_create uv_flip False False =
            Some (the (BM_uv_vert_map_create uv_flip False False))"
    by code_simp
  have g1: "rev (map rev (uv_spec_groups
              (uv_vert_connected uv_flip True (uv_vert_winding False (faces uv_flip))
                 (fst (uv_vert_filled uv_flip False)))
              (snd (uv_vert_filled uv_flip False) ! 0))) = [[0], [3]]"
    by code_simp
  have g2: "rev (map rev (uv_spec_groups
              (uv_vert_connected uv_flip False (uv_vert_winding False (faces uv_flip))
                 (fst (uv_vert_filled uv_flip False)))
              (snd (uv_vert_filled uv_flip False) ! 0))) = [[0, 3]]"
    by code_simp
  from uv_vert_map_subgroups [OF c1 a]
  have "uv_vert_subgroups (the (BM_uv_vert_map_create uv_flip False True)) 0 = [[0], [3]]"
    unfolding Let_def g1 by (rule conjunct1)
  moreover from uv_vert_map_subgroups [OF c2 a]
  have "uv_vert_subgroups (the (BM_uv_vert_map_create uv_flip False False)) 0 = [[0, 3]]"
    unfolding Let_def g2 by (rule conjunct1)
  ultimately show ?thesis by (rule conjI)
qed

section \<open>Properties of the UV element map\<close>

subsection \<open>The fill\<close>

lemma uv_element_fill_loops_inv:
  "uv_chains_ok (length buf) vert \<Longrightarrow> \<forall>e\<in>set buf. \<not> e_separate e \<Longrightarrow>
   uv_chains_ok (length (fst (uv_element_fill_loops uv_selected j i ls (buf, vert))))
     (snd (uv_element_fill_loops uv_selected j i ls (buf, vert))) \<and>
   length (snd (uv_element_fill_loops uv_selected j i ls (buf, vert))) = length vert \<and>
   (\<forall>e\<in>set (fst (uv_element_fill_loops uv_selected j i ls (buf, vert))). \<not> e_separate e)"
proof (induction ls arbitrary: i buf vert)
  case Nil
  then show ?case by simp
next
  case (Cons l ls)
  show ?case
  proof (cases "uv_selected \<and> \<not> l_uv_sel l")
    case True
    then have step: "uv_element_fill_loops uv_selected j i (l # ls) (buf, vert) =
        uv_element_fill_loops uv_selected j (i + 1) ls (buf, vert)"
      by simp
    from Cons.IH[OF Cons.prems, of "i + 1"] show ?thesis
      unfolding step .
  next
    case False
    define buf' where "buf' = buf @ [\<lparr>l_face = j, e_loop_of_poly_index = i, e_separate = False,
                       island = INVALID_ISLAND\<rparr>]"
    define vert' where "vert' = vert[l_v l := length buf # vert ! l_v l]"
    have step: "uv_element_fill_loops uv_selected j i (l # ls) (buf, vert) =
        uv_element_fill_loops uv_selected j (i + 1) ls (buf', vert')"
      using False by (auto simp add: buf'_def vert'_def)
    have lb: "length buf' = Suc (length buf)" by (simp add: buf'_def)
    have lv: "length vert' = length vert" by (simp add: vert'_def)
    have ok: "uv_chains_ok (length buf') vert'"
      unfolding lb vert'_def by (rule uv_chains_ok_push[OF Cons.prems(1)])
    have fl: "\<forall>e\<in>set buf'. \<not> e_separate e"
      using Cons.prems(2) by (simp add: buf'_def)
    from Cons.IH[OF ok fl, of "i + 1"] show ?thesis
      unfolding step lv .
  qed
qed

lemma uv_element_fill_faces_inv:
  "uv_chains_ok (length (fst st)) (snd st) \<Longrightarrow> \<forall>e\<in>set (fst st). \<not> e_separate e \<Longrightarrow>
   uv_chains_ok (length (fst (uv_element_fill_faces face_selected uv_selected j fs st)))
     (snd (uv_element_fill_faces face_selected uv_selected j fs st)) \<and>
   length (snd (uv_element_fill_faces face_selected uv_selected j fs st)) = length (snd st) \<and>
   (\<forall>e\<in>set (fst (uv_element_fill_faces face_selected uv_selected j fs st)). \<not> e_separate e)"
proof (induction fs arbitrary: j st)
  case Nil
  then show ?case by simp
next
  case (Cons efa fs)
  obtain buf vert where st: "st = (buf, vert)" by (cases st)
  show ?case
  proof (cases "face_passes face_selected efa")
    case True
    define st' where "st' = uv_element_fill_loops uv_selected j 0 (f_loops efa) (buf, vert)"
    have step: "uv_element_fill_faces face_selected uv_selected j (efa # fs) st =
        uv_element_fill_faces face_selected uv_selected (j + 1) fs st'"
      using True by (simp add: st st'_def)
    from uv_element_fill_loops_inv[of buf vert uv_selected j 0 "f_loops efa"] Cons.prems
    have ok: "uv_chains_ok (length (fst st')) (snd st')" and fl: "\<forall>e\<in>set (fst st'). \<not> e_separate e"
      and lv: "length (snd st') = length (snd st)"
      by (simp_all add: st st'_def)
    from Cons.IH[OF ok fl, of "j + 1"] show ?thesis
      unfolding step lv .
  next
    case False
    then have step: "uv_element_fill_faces face_selected uv_selected j (efa # fs) st =
        uv_element_fill_faces face_selected uv_selected (j + 1) fs st"
      by simp
    from Cons.IH[OF Cons.prems, of "j + 1"] show ?thesis
      unfolding step .
  qed
qed

lemma uv_element_filled_inv:
  "uv_chains_ok (length (fst (uv_element_filled m face_selected uv_selected)))
     (snd (uv_element_filled m face_selected uv_selected)) \<and>
   length (snd (uv_element_filled m face_selected uv_selected)) = length (verts m) \<and>
   (\<forall>e\<in>set (fst (uv_element_filled m face_selected uv_selected)). \<not> e_separate e)"
  unfolding uv_element_filled_def
  using uv_element_fill_faces_inv[of "([], replicate (length (verts m)) [])" face_selected
      uv_selected 0 "faces m"]
  by (simp add: uv_chains_ok_def)

subsection \<open>Subgroups of the element map\<close>

text \<open>
  C9, as stated, fails: the UV-tolerance test is not a test between the two merged
  corners.  On the fan the three corners at vertex 0 (U coordinates 0, 0.00012 and
  0.00006, all selected) end in one subgroup of the element map, although the corners at
  0 and 0.00012 (buffer entries 0 and 3) are further apart than the tolerance 0.0001:
  each was compared with the popped corner at 0.00006 only.
\<close>

theorem uv_element_tolerance_counterexample:
  "uv_element_subgroups
     (em_buf (the (BM_uv_element_map_create uv_fan no_stale False False False False)),
      em_vert (the (BM_uv_element_map_create uv_fan no_stale False False False False))) 0 =
     [[0, 3, 6]] \<and>
   l_uv_sel (uv_element_loop uv_fan
     (em_buf (the (BM_uv_element_map_create uv_fan no_stale False False False False)) ! 0)) =
   l_uv_sel (uv_element_loop uv_fan
     (em_buf (the (BM_uv_element_map_create uv_fan no_stale False False False False)) ! 3)) \<and>
   \<not> compare_v2v2
        (l_uv (uv_element_loop uv_fan
           (em_buf (the (BM_uv_element_map_create uv_fan no_stale False False False False)) ! 0)))
        (l_uv (uv_element_loop uv_fan
           (em_buf (the (BM_uv_element_map_create uv_fan no_stale False False False False)) ! 3)))
        STD_UV_CONNECT_LIMIT"
  by code_simp

text \<open>
  C9, amended: after the per-vertex sort of \<^verbatim>\<open>BM_uv_element_map_create\<close> (the state the
  island pass starts from, and the result when no islands are asked for), any two
  corners in the same subgroup have the same state under the UV-selection predicate and,
  with \<open>use_winding\<close>, their faces have the same winding flag; the UV-tolerance test is
  made against the popped corner of the subgroup only (the last of the subgroup in the
  chain): every other member is within the tolerance of the popped corner, while two
  other members may be further apart.  A selected and an unselected corner are
  therefore never in one subgroup.
\<close>

theorem uv_element_subgroups_selection:
  assumes a: "a < length (verts m)"
    and g: "g \<in> set (uv_element_subgroups
                       (uv_element_sorted m face_selected uv_selected use_winding stale) a)"
    and x: "x \<in> set g" and y: "y \<in> set g"
  shows "let buf = fst (uv_element_sorted m face_selected uv_selected use_winding stale);
             winding = uv_element_winding face_selected uv_selected stale 0 (faces m)
         in l_uv_sel (uv_element_loop m (buf ! x)) = l_uv_sel (uv_element_loop m (buf ! y)) \<and>
            (use_winding \<longrightarrow> winding ! l_face (buf ! x) = winding ! l_face (buf ! y)) \<and>
            (x \<noteq> last g \<longrightarrow>
               compare_v2v2 (l_uv (uv_element_loop m (buf ! x)))
                 (l_uv (uv_element_loop m (buf ! last g))) STD_UV_CONNECT_LIMIT)"
proof -
  define buf0 where "buf0 = fst (uv_element_filled m face_selected uv_selected)"
  define vert where "vert = snd (uv_element_filled m face_selected uv_selected)"
  define winding where "winding = uv_element_winding face_selected uv_selected stale 0 (faces m)"
  define conn where "conn = uv_element_connected m use_winding winding buf0"
  define st where "st = foldl (uv_sort_vert conn (\<lambda>v. v\<lparr>e_separate := True\<rparr>)) (buf0, vert)
                          [0..<length vert]"
  have filled: "uv_element_filled m face_selected uv_selected = (buf0, vert)"
    by (simp add: buf0_def vert_def)
  from uv_element_filled_inv[of m face_selected uv_selected]
  have ok: "uv_chains_ok (length buf0) vert" and lv: "length vert = length (verts m)"
    and fl: "\<forall>k<length buf0. \<not> e_separate (buf0 ! k)"
    by (simp_all add: buf0_def vert_def)
  have sorted: "uv_element_sorted m face_selected uv_selected use_winding stale = st"
    unfolding uv_element_sorted_def Let_def filled fst_conv winding_def[symmetric]
      conn_def[symmetric] st_def lv ..
  have mk: "\<And>e :: UvElement. e\<lparr>e_separate := True\<rparr>\<lparr>e_separate := True\<rparr> = e\<lparr>e_separate := True\<rparr>"
    by simp
  have sm: "\<And>e :: UvElement. e_separate (e\<lparr>e_separate := True\<rparr>)"
    by simp
  have a': "a < length vert" using a lv by simp
  have rng: "\<forall>a<length vert. \<forall>k\<in>set (vert ! a). k < length buf0"
    using ok by (simp add: uv_chains_ok_def)
  have sub: "uv_element_subgroups st a = rev (map rev (uv_spec_groups conn (vert ! a)))"
    unfolding uv_element_subgroups_def st_def
    by (rule uv_sort_subgroups[OF mk sm ok fl a'])
  from g obtain g0 where g0: "g0 \<in> set (uv_spec_groups conn (vert ! a))" and gg: "g = rev g0"
    unfolding sorted sub by auto
  have g0ne: "g0 \<noteq> []" using g0 by (rule uv_spec_groups_nonempty)
  have lg: "last g = hd g0" using gg g0ne by (simp add: last_rev)
  have g0sub: "set g0 \<subseteq> set (vert ! a)" using g0 by (rule uv_spec_groups_subset)
  have fields: "l_face (fst st ! k) = l_face (buf0 ! k) \<and>
      e_loop_of_poly_index (fst st ! k) = e_loop_of_poly_index (buf0 ! k)"
    if "k \<in> set g0" for k
  proof -
    from that g0sub rng a' have k: "k < length buf0" by auto
    from uv_sort_fold[OF mk rng order_refl, of conn] k
    have "fst st ! k = (buf0 ! k)\<lparr>e_separate := True\<rparr> \<or> fst st ! k = buf0 ! k"
      unfolding st_def by (metis (no_types, lifting))
    then show ?thesis by auto
  qed
  have loop: "uv_element_loop m (fst st ! k) = uv_element_loop m (buf0 ! k)"
    if "k \<in> set g0" for k
    using fields[OF that] by (simp add: uv_element_loop_def)
  have head: "conn (hd g0) z" if z: "z \<in> set g0" and ne: "z \<noteq> hd g0" for z
  proof -
    from z ne g0ne have "z \<in> set (tl g0)" by (cases g0) auto
    with g0 show ?thesis by (rule uv_spec_groups_head)
  qed
  have hd_in: "hd g0 \<in> set g0" using g0ne by simp
  have sel: "l_uv_sel (uv_element_loop m (buf0 ! z)) = l_uv_sel (uv_element_loop m (buf0 ! hd g0))"
    if z: "z \<in> set g0" for z
  proof (cases "z = hd g0")
    case True
    then show ?thesis by simp
  next
    case False
    from head[OF z False] show ?thesis
      by (simp add: conn_def uv_element_connected_def Let_def)
  qed
  have win: "winding ! l_face (buf0 ! z) = winding ! l_face (buf0 ! hd g0)"
    if z: "z \<in> set g0" and uw: use_winding for z
  proof (cases "z = hd g0")
    case True
    then show ?thesis by simp
  next
    case False
    from head[OF z False] uw show ?thesis
      by (simp add: conn_def uv_element_connected_def Let_def)
  qed
  have cmp: "compare_v2v2 (l_uv (uv_element_loop m (buf0 ! z)))
                 (l_uv (uv_element_loop m (buf0 ! hd g0))) STD_UV_CONNECT_LIMIT"
    if z: "z \<in> set g0" and ne: "z \<noteq> hd g0" for z
    using head[OF z ne] by (simp add: conn_def uv_element_connected_def Let_def)
  have xg: "x \<in> set g0" and yg: "y \<in> set g0" using x y gg by simp_all
  show ?thesis
    unfolding Let_def sorted winding_def[symmetric] lg
    using sel[OF xg] sel[OF yg] win[OF xg] win[OF yg] cmp[OF xg]
      loop[OF xg] loop[OF yg] loop[OF hd_in] fields[OF xg] fields[OF yg]
    by simp
qed

theorem uv_element_subgroups_selection_witness:
  "uv_element_subgroups (uv_element_sorted uv_flip False False False no_stale) 0 = [[0], [3]] \<and>
   uv_element_subgroups (uv_element_sorted uv_two False False False no_stale) 1 = [[1, 7]] \<and>
   l_uv_sel (uv_element_loop uv_two
       (fst (uv_element_sorted uv_two False False False no_stale) ! 1)) =
   l_uv_sel (uv_element_loop uv_two
       (fst (uv_element_sorted uv_two False False False no_stale) ! 7))"
proof -
  have s0: "uv_element_subgroups (uv_element_sorted uv_flip False False False no_stale) 0 =
            [[0], [3]]"
    by code_simp
  have s1: "uv_element_subgroups (uv_element_sorted uv_two False False False no_stale) 1 =
            [[1, 7]]"
    by code_simp
  have a: "1 < length (verts uv_two)"
    by code_simp
  have g: "[1, 7] \<in> set (uv_element_subgroups
                             (uv_element_sorted uv_two False False False no_stale) 1)"
    unfolding s1 by simp
  have x: "(1::nat) \<in> set [1, 7]" and y: "(7::nat) \<in> set [1, 7]"
    by simp_all
  from uv_element_subgroups_selection [OF a g x y]
  have "l_uv_sel (uv_element_loop uv_two
          (fst (uv_element_sorted uv_two False False False no_stale) ! 1)) =
        l_uv_sel (uv_element_loop uv_two
          (fst (uv_element_sorted uv_two False False False no_stale) ! 7))"
    unfolding Let_def by (rule conjunct1)
  with s0 s1 show ?thesis by simp
qed

section \<open>Properties of the island pass\<close>

subsection \<open>Pushing the faces of a UV vertex\<close>

lemma island_push_props:
  assumes nis: "nislands \<noteq> INVALID_ISLAND"
  shows "length (fst (island_push buf nislands ie chain (isn, stk))) = length isn \<and>
    (\<forall>f<length isn. isn ! f \<noteq> INVALID_ISLAND \<longrightarrow>
        fst (island_push buf nislands ie chain (isn, stk)) ! f = isn ! f) \<and>
    (\<forall>f<length isn. isn ! f = INVALID_ISLAND \<longrightarrow>
        fst (island_push buf nislands ie chain (isn, stk)) ! f = INVALID_ISLAND \<or>
        (fst (island_push buf nislands ie chain (isn, stk)) ! f = nislands \<and>
         f \<in> set (snd (island_push buf nislands ie chain (isn, stk))))) \<and>
    set stk \<subseteq> set (snd (island_push buf nislands ie chain (isn, stk))) \<and>
    (\<forall>f\<in>set (snd (island_push buf nislands ie chain (isn, stk))).
        f \<in> set stk \<or>
        (f < length isn \<and> isn ! f = INVALID_ISLAND \<and>
         fst (island_push buf nislands ie chain (isn, stk)) ! f = nislands)) \<and>
    (distinct stk \<and> (\<forall>f\<in>set stk. f < length isn \<and> isn ! f \<noteq> INVALID_ISLAND) \<longrightarrow>
       distinct (snd (island_push buf nislands ie chain (isn, stk))))"
proof (induction chain arbitrary: isn stk)
  case Nil
  then show ?case by simp
next
  case (Cons element rest)
  show ?case
  proof (cases "e_separate (buf ! element) \<and> element \<noteq> ie")
    case True
    then show ?thesis by simp
  next
    case stop: False
    define f0 where "f0 = l_face (buf ! element)"
    show ?thesis
    proof (cases "f0 < length isn \<and> isn ! f0 = INVALID_ISLAND")
      case False
      then have step: "island_push buf nislands ie (element # rest) (isn, stk) =
          island_push buf nislands ie rest (isn, stk)"
        using stop by (auto simp: f0_def)
      show ?thesis unfolding step by (rule Cons.IH)
    next
      case True
      define isn1 where "isn1 = isn[f0 := nislands]"
      define stk1 where "stk1 = f0 # stk"
      have step: "island_push buf nislands ie (element # rest) (isn, stk) =
          island_push buf nislands ie rest (isn1, stk1)"
        using stop True by (auto simp: f0_def isn1_def stk1_def)
      define res where "res = island_push buf nislands ie rest (isn1, stk1)"
      have l1: "length isn1 = length isn" by (simp add: isn1_def)
      have n1: "\<And>f. f < length isn \<Longrightarrow> isn1 ! f = (if f = f0 then nislands else isn ! f)"
        by (simp add: isn1_def nth_list_update)
      from Cons.IH[of isn1 stk1]
      have r1: "length (fst res) = length isn1"
        and r2: "\<forall>f<length isn1. isn1 ! f \<noteq> INVALID_ISLAND \<longrightarrow> fst res ! f = isn1 ! f"
        and r3: "\<forall>f<length isn1. isn1 ! f = INVALID_ISLAND \<longrightarrow>
                   fst res ! f = INVALID_ISLAND \<or> (fst res ! f = nislands \<and> f \<in> set (snd res))"
        and r4: "set stk1 \<subseteq> set (snd res)"
        and r5: "\<forall>f\<in>set (snd res). f \<in> set stk1 \<or>
                   (f < length isn1 \<and> isn1 ! f = INVALID_ISLAND \<and> fst res ! f = nislands)"
        and r6: "distinct stk1 \<and> (\<forall>f\<in>set stk1. f < length isn1 \<and> isn1 ! f \<noteq> INVALID_ISLAND) \<longrightarrow>
                   distinct (snd res)"
        unfolding res_def by blast+
      have g1: "length (fst res) = length isn" using r1 l1 by simp
      have g2: "\<forall>f<length isn. isn ! f \<noteq> INVALID_ISLAND \<longrightarrow> fst res ! f = isn ! f"
      proof (intro allI impI)
        fix f assume f: "f < length isn" and ne: "isn ! f \<noteq> INVALID_ISLAND"
        then have "f \<noteq> f0" using True by auto
        then have "isn1 ! f = isn ! f" using n1[OF f] by simp
        with r2[rule_format, of f] f l1 ne show "fst res ! f = isn ! f" by simp
      qed
      have f0res: "fst res ! f0 = nislands"
        using r2[rule_format, of f0] l1 n1[of f0] True nis by simp
      have g3: "\<forall>f<length isn. isn ! f = INVALID_ISLAND \<longrightarrow>
                   fst res ! f = INVALID_ISLAND \<or> (fst res ! f = nislands \<and> f \<in> set (snd res))"
      proof (intro allI impI)
        fix f assume f: "f < length isn" and "isn ! f = INVALID_ISLAND"
        show "fst res ! f = INVALID_ISLAND \<or> (fst res ! f = nislands \<and> f \<in> set (snd res))"
        proof (cases "f = f0")
          case True
          then show ?thesis using f0res r4 by (auto simp: stk1_def)
        next
          case False
          then have "isn1 ! f = INVALID_ISLAND" using n1[OF f] \<open>isn ! f = INVALID_ISLAND\<close> by simp
          with r3 f l1 show ?thesis by simp
        qed
      qed
      have g4: "set stk \<subseteq> set (snd res)" using r4 by (auto simp: stk1_def)
      have g5: "\<forall>f\<in>set (snd res). f \<in> set stk \<or>
                  (f < length isn \<and> isn ! f = INVALID_ISLAND \<and> fst res ! f = nislands)"
      proof
        fix f assume "f \<in> set (snd res)"
        with r5 have "f \<in> set stk1 \<or>
            (f < length isn1 \<and> isn1 ! f = INVALID_ISLAND \<and> fst res ! f = nislands)"
          by blast
        then show "f \<in> set stk \<or>
            (f < length isn \<and> isn ! f = INVALID_ISLAND \<and> fst res ! f = nislands)"
        proof
          assume "f \<in> set stk1"
          then show ?thesis using True f0res by (auto simp: stk1_def)
        next
          assume a: "f < length isn1 \<and> isn1 ! f = INVALID_ISLAND \<and> fst res ! f = nislands"
          then have fl: "f < length isn" using l1 by simp
          from a n1[OF fl] nis have "isn ! f = INVALID_ISLAND" by (auto split: if_splits)
          with fl a show ?thesis by simp
        qed
      qed
      have g6: "distinct (snd res)"
        if d: "distinct stk \<and> (\<forall>f\<in>set stk. f < length isn \<and> isn ! f \<noteq> INVALID_ISLAND)"
      proof -
        have "f0 \<notin> set stk" using d True by auto
        then have "distinct stk1" using d by (simp add: stk1_def)
        moreover have "\<forall>f\<in>set stk1. f < length isn1 \<and> isn1 ! f \<noteq> INVALID_ISLAND"
        proof
          fix f assume "f \<in> set stk1"
          then have "f = f0 \<or> f \<in> set stk" by (auto simp: stk1_def)
          then have fl: "f < length isn" using d True by auto
          from \<open>f = f0 \<or> f \<in> set stk\<close> d n1[OF fl] nis
          have "isn1 ! f \<noteq> INVALID_ISLAND" by auto
          with fl l1 show "f < length isn1 \<and> isn1 ! f \<noteq> INVALID_ISLAND" by simp
        qed
        ultimately show ?thesis using r6 by blast
      qed
      show ?thesis
        unfolding step res_def[symmetric] using g1 g2 g3 g4 g5 g6 by blast
    qed
  qed
qed

subsection \<open>One corner of a popped face\<close>

lemma island_find_None:
  "island_find buf efa xs init = None \<Longrightarrow> \<forall>e\<in>set xs. l_face (buf ! e) \<noteq> efa"
  by (induction xs arbitrary: init) (auto simp: Let_def split: if_splits)

lemma island_find_Some:
  "island_find buf efa xs init = Some (e, init') \<Longrightarrow> e \<in> set xs \<and> l_face (buf ! e) = efa"
  by (induction xs arbitrary: init) (auto simp: Let_def split: if_splits)

lemma uv_corner_inj:
  assumes "distinct (map uv_corner B)" and "k < length B" and "k' < length B"
    and "uv_corner (B ! k) = uv_corner (B ! k')"
  shows "k = k'"
proof -
  have "map uv_corner B ! k = map uv_corner B ! k'" using assms by simp
  then show ?thesis
    using nth_eq_iff_index_eq[of "map uv_corner B" k k'] assms by simp
qed

lemma island_ctx_loop:
  assumes ctx: "island_ctx m fs us B vert" and k: "k < length B"
  shows "l_face (B ! k) < length (faces m)"
    and "face_passes fs (faces m ! l_face (B ! k))"
    and "e_loop_of_poly_index (B ! k) < length (f_loops (faces m ! l_face (B ! k)))"
    and "us \<longrightarrow> l_uv_sel (uv_element_loop m (B ! k))"
  using ctx k
  by (auto simp: island_ctx_def uv_corner_eligible_def uv_corner_def uv_element_loop_def)

text \<open>In the chain of a corner's vertex, the element of the corner's face is the corner's own.\<close>

lemma island_ctx_unique:
  assumes ctx: "island_ctx m fs us B vert"
    and efa: "efa < length (faces m)" and i: "i < length (f_loops (faces m ! efa))"
    and k0: "k0 < length B" "uv_corner (B ! k0) = (efa, i)"
    and e: "e \<in> set (vert ! l_v (f_loops (faces m ! efa) ! i))" "l_face (B ! e) = efa"
  shows "e = k0"
proof -
  let ?ls = "f_loops (faces m ! efa)"
  have ok: "uv_mesh_ok m" and dc: "distinct (map uv_corner B)"
    using ctx by (simp_all add: island_ctx_def)
  have fin: "faces m ! efa \<in> set (faces m)" using efa by simp
  have dl: "distinct (map l_v ?ls)" and lv: "l_v (?ls ! i) < length (verts m)"
    using ok fin i by (auto simp: uv_mesh_ok_def list_all_iff)
  from ctx lv have "set (vert ! l_v (?ls ! i)) =
      {k. k < length B \<and> l_v (uv_element_loop m (B ! k)) = l_v (?ls ! i)}"
    by (simp add: island_ctx_def)
  with e have eN: "e < length B" and ev: "l_v (uv_element_loop m (B ! e)) = l_v (?ls ! i)"
    by auto
  have ei: "e_loop_of_poly_index (B ! e) < length ?ls"
    using island_ctx_loop(3)[OF ctx eN] e(2) by simp
  from ev e(2) have "map l_v ?ls ! e_loop_of_poly_index (B ! e) = map l_v ?ls ! i"
    using ei i by (simp add: uv_element_loop_def)
  with dl ei i have "e_loop_of_poly_index (B ! e) = i"
    using nth_eq_iff_index_eq[of "map l_v ?ls" "e_loop_of_poly_index (B ! e)" i] by simp
  with e(2) k0(2) have "uv_corner (B ! e) = uv_corner (B ! k0)"
    by (simp add: uv_corner_def)
  from uv_corner_inj[OF dc eN k0(1) this] show ?thesis .
qed

lemma island_ctx_find:
  assumes ctx: "island_ctx m fs us B vert"
    and efa: "efa < length (faces m)" and pass: "face_passes fs (faces m ! efa)"
    and i: "i < length (f_loops (faces m ! efa))"
    and sel: "us \<longrightarrow> l_uv_sel (f_loops (faces m ! efa) ! i)"
    and lb: "length buf = length B" and fb: "\<forall>k<length B. l_face (buf ! k) = l_face (B ! k)"
  shows "\<exists>k0 init. k0 < length B \<and> uv_corner (B ! k0) = (efa, i) \<and>
     island_find buf efa (vert ! l_v (f_loops (faces m ! efa) ! i))
       (vert ! l_v (f_loops (faces m ! efa) ! i)) = Some (k0, init)"
proof -
  let ?l = "f_loops (faces m ! efa) ! i"
  let ?chain = "vert ! l_v ?l"
  have "uv_corner_eligible m fs us (efa, i)"
    using efa pass i sel by (simp add: uv_corner_eligible_def)
  with ctx have "(efa, i) \<in> uv_corner ` set B" by (simp add: island_ctx_def)
  then obtain k0 where k0: "k0 < length B" "uv_corner (B ! k0) = (efa, i)"
    by (auto simp: in_set_conv_nth)
  have ok: "uv_mesh_ok m" using ctx by (simp add: island_ctx_def)
  have "faces m ! efa \<in> set (faces m)" using efa by simp
  then have lv: "l_v ?l < length (verts m)"
    using ok i by (auto simp: uv_mesh_ok_def list_all_iff)
  from ctx lv have ch: "set ?chain = {k. k < length B \<and> l_v (uv_element_loop m (B ! k)) = l_v ?l}"
    by (simp add: island_ctx_def)
  have "uv_element_loop m (B ! k0) = ?l"
    using k0(2) by (simp add: uv_element_loop_def uv_corner_def)
  then have k0c: "k0 \<in> set ?chain" using ch k0(1) by simp
  have "l_face (buf ! k0) = efa" using fb k0 by (simp add: uv_corner_def)
  with k0c have "\<exists>e\<in>set ?chain. l_face (buf ! e) = efa" by blast
  then have "island_find buf efa ?chain ?chain \<noteq> None"
    using island_find_None[of buf efa ?chain ?chain] by blast
  then obtain e init where f: "island_find buf efa ?chain ?chain = Some (e, init)" by auto
  from island_find_Some[OF f] have ec: "e \<in> set ?chain" and ef: "l_face (buf ! e) = efa"
    by simp_all
  from ec ch have "e < length B" by simp
  with ef fb have "l_face (B ! e) = efa" by simp
  from island_ctx_unique[OF ctx efa i k0 ec this] f k0 show ?thesis by blast
qed

lemma island_invD:
  assumes "island_inv B F nis P st"
  shows "length (is_buf st) = length B"
    and "\<And>k. k < length B \<Longrightarrow> is_buf st ! k = (B ! k)\<lparr>island := island (is_buf st ! k)\<rparr>"
    and "length (island_number st) = F"
    and "length (remap st) = length B"
    and "\<And>k. k < length B \<Longrightarrow> island (is_buf st ! k) \<noteq> INVALID_ISLAND \<Longrightarrow>
           island (is_buf st ! k) = island_number st ! l_face (B ! k)"
    and "\<And>k. k < length B \<Longrightarrow> island_placed st k \<Longrightarrow> island (is_buf st ! k) \<noteq> INVALID_ISLAND"
    and "\<And>k. k < length B \<Longrightarrow> island_number st ! l_face (B ! k) \<noteq> INVALID_ISLAND \<Longrightarrow>
           l_face (B ! k) \<notin> P \<Longrightarrow> island_placed st k"
    and "\<And>j. j < length (islandbuf st) \<Longrightarrow> \<exists>k<length B. remap st ! k = j \<and> island_placed st k"
    and "\<And>f. f \<in> P \<Longrightarrow> f < F \<and> island_number st ! f = nis"
    and "\<And>k. k < length B \<Longrightarrow> island_placed st k \<Longrightarrow> l_face (B ! k) \<notin> set (stack st)"
    and "distinct (stack st)"
    and "set (stack st) \<subseteq> P"
    and "\<And>k. k < length B \<Longrightarrow> island (is_buf st ! k) = INVALID_ISLAND \<or>
           (0 \<le> island (is_buf st ! k) \<and> island (is_buf st ! k) \<le> nis)"
  using assms unfolding island_inv_def by blast+

lemma island_invI:
  assumes "length (is_buf st) = length B"
    and "\<And>k. k < length B \<Longrightarrow> is_buf st ! k = (B ! k)\<lparr>island := island (is_buf st ! k)\<rparr>"
    and "length (island_number st) = F"
    and "length (remap st) = length B"
    and "\<And>k. k < length B \<Longrightarrow> island (is_buf st ! k) \<noteq> INVALID_ISLAND \<Longrightarrow>
           island (is_buf st ! k) = island_number st ! l_face (B ! k)"
    and "\<And>k. k < length B \<Longrightarrow> island_placed st k \<Longrightarrow> island (is_buf st ! k) \<noteq> INVALID_ISLAND"
    and "\<And>k. k < length B \<Longrightarrow> island_number st ! l_face (B ! k) \<noteq> INVALID_ISLAND \<Longrightarrow>
           l_face (B ! k) \<notin> P \<Longrightarrow> island_placed st k"
    and "\<And>j. j < length (islandbuf st) \<Longrightarrow> \<exists>k<length B. remap st ! k = j \<and> island_placed st k"
    and "\<And>f. f \<in> P \<Longrightarrow> f < F \<and> island_number st ! f = nis"
    and "\<And>k. k < length B \<Longrightarrow> island_placed st k \<Longrightarrow> l_face (B ! k) \<notin> set (stack st)"
    and "distinct (stack st)"
    and "set (stack st) \<subseteq> P"
    and "\<And>k. k < length B \<Longrightarrow> island (is_buf st ! k) = INVALID_ISLAND \<or>
           (0 \<le> island (is_buf st ! k) \<and> island (is_buf st ! k) \<le> nis)"
  shows "island_inv B F nis P st"
  unfolding island_inv_def using assms by blast

lemma island_inv_face:
  assumes "island_inv B F nis P st" and "k < length B"
  shows "l_face (is_buf st ! k) = l_face (B ! k)"
    and "e_loop_of_poly_index (is_buf st ! k) = e_loop_of_poly_index (B ! k)"
    and "uv_corner (is_buf st ! k) = uv_corner (B ! k)"
proof -
  from island_invD(2)[OF assms] have e: "is_buf st ! k = (B ! k)\<lparr>island := island (is_buf st ! k)\<rparr>" .
  show "l_face (is_buf st ! k) = l_face (B ! k)" by (subst e) simp
  show "e_loop_of_poly_index (is_buf st ! k) = e_loop_of_poly_index (B ! k)" by (subst e) simp
  show "uv_corner (is_buf st ! k) = uv_corner (B ! k)"
    unfolding uv_corner_def by (subst e, subst (2) e) simp
qed

lemma island_corner_skip:
  assumes ctx: "island_ctx m fs us B vert"
    and inv: "island_inv B (length (faces m)) nis (insert efa (set (stack st))) st"
    and mid: "island_mid B efa i st"
    and skip: "us \<and> \<not> l_uv_sel (f_loops (faces m ! efa) ! i)"
  shows "island_corner us vert nis efa st (f_loops (faces m ! efa) ! i) = st"
    and "island_mid B efa (Suc i) st"
proof -
  show "island_corner us vert nis efa st (f_loops (faces m ! efa) ! i) = st"
    using skip by (simp add: island_corner_def)
  have "e_loop_of_poly_index (B ! k) \<noteq> i" if k: "k < length B" and f: "l_face (B ! k) = efa" for k
    using island_ctx_loop(4)[OF ctx k] skip f by (auto simp: uv_element_loop_def)
  then show "island_mid B efa (Suc i) st"
    using mid unfolding island_mid_def by (auto simp: less_Suc_eq)
qed

lemma island_corner_inv:
  assumes ctx: "island_ctx m fs us B vert"
    and inv: "island_inv B (length (faces m)) nis (insert efa (set (stack st))) st"
    and mid: "island_mid B efa i st"
    and nis: "0 \<le> nis"
    and efa: "efa < length (faces m)" and pass: "face_passes fs (faces m ! efa)"
    and i: "i < length (f_loops (faces m ! efa))"
    and sel: "us \<longrightarrow> l_uv_sel (f_loops (faces m ! efa) ! i)"
  shows "island_inv B (length (faces m)) nis
           (insert efa (set (stack (island_corner us vert nis efa st (f_loops (faces m ! efa) ! i)))))
           (island_corner us vert nis efa st (f_loops (faces m ! efa) ! i)) \<and>
         island_mid B efa (Suc i) (island_corner us vert nis efa st (f_loops (faces m ! efa) ! i)) \<and>
         (\<forall>k<length B. island (is_buf st ! k) \<noteq> INVALID_ISLAND \<longrightarrow>
            island (is_buf (island_corner us vert nis efa st (f_loops (faces m ! efa) ! i)) ! k) =
            island (is_buf st ! k))"
proof -
  define l where "l = f_loops (faces m ! efa) ! i"
  define st' where "st' = island_corner us vert nis efa st l"
  note G = island_invD[OF inv]
  have nisI: "nis \<noteq> INVALID_ISLAND" using nis by (simp add: INVALID_ISLAND_def)
  have dc: "distinct (map uv_corner B)" using ctx by (simp add: island_ctx_def)
  have fb: "\<forall>k<length B. l_face (is_buf st ! k) = l_face (B ! k)"
    using island_inv_face(1)[OF inv] by simp
  from island_ctx_find[OF ctx efa pass i sel G(1) fb]
  obtain k0 init where k0: "k0 < length B" and c0: "uv_corner (B ! k0) = (efa, i)"
    and find: "island_find (is_buf st) efa (vert ! l_v l) (vert ! l_v l) = Some (k0, init)"
    unfolding l_def by blast
  have f0: "l_face (B ! k0) = efa" and i0: "e_loop_of_poly_index (B ! k0) = i"
    using c0 by (simp_all add: uv_corner_def)
  define buf' where "buf' = (is_buf st)[k0 := (is_buf st ! k0)\<lparr>island := nis\<rparr>]"
  define pushed where "pushed = island_push buf' nis (hd init) init (island_number st, stack st)"
  have st': "st' = \<lparr>is_buf = buf', island_number = fst pushed, stack = snd pushed,
                    remap = (remap st)[k0 := length (islandbuf st)],
                    islandbuf = islandbuf st @ [buf' ! k0]\<rparr>"
    unfolding st'_def l_def island_corner_def
    using sel find[unfolded l_def] by (auto simp: Let_def buf'_def pushed_def)
  have s1: "is_buf st' = buf'" and s2: "island_number st' = fst pushed"
    and s3: "stack st' = snd pushed"
    and s4: "remap st' = (remap st)[k0 := length (islandbuf st)]"
    and s5: "islandbuf st' = islandbuf st @ [buf' ! k0]"
    by (simp_all add: st')
  from island_push_props[OF nisI, of buf' "hd init" init "island_number st" "stack st"]
  have q1: "length (fst pushed) = length (faces m)"
    and q2: "\<And>f. f < length (faces m) \<Longrightarrow> island_number st ! f \<noteq> INVALID_ISLAND \<Longrightarrow>
               fst pushed ! f = island_number st ! f"
    and q3: "\<And>f. f < length (faces m) \<Longrightarrow> island_number st ! f = INVALID_ISLAND \<Longrightarrow>
               fst pushed ! f = INVALID_ISLAND \<or> (fst pushed ! f = nis \<and> f \<in> set (snd pushed))"
    and q4: "set (stack st) \<subseteq> set (snd pushed)"
    and q5: "\<And>f. f \<in> set (snd pushed) \<Longrightarrow> f \<in> set (stack st) \<or>
               (f < length (faces m) \<and> island_number st ! f = INVALID_ISLAND \<and> fst pushed ! f = nis)"
    and q6: "distinct (stack st) \<and>
               (\<forall>f\<in>set (stack st). f < length (faces m) \<and> island_number st ! f \<noteq> INVALID_ISLAND) \<longrightarrow>
             distinct (snd pushed)"
    unfolding pushed_def[symmetric] G(3) by blast+
  have efa_n: "island_number st ! efa = nis" using G(9)[of efa] by simp
  have efa_p: "fst pushed ! efa = nis" using q2[OF efa] efa_n nisI by simp
  have efa_s: "efa \<notin> set (snd pushed)"
  proof
    assume "efa \<in> set (snd pushed)"
    from q5[OF this] show False using mid efa_n nisI by (auto simp: island_mid_def)
  qed
  have lb: "length buf' = length B" using G(1) by (simp add: buf'_def)
  have b0: "buf' ! k0 = (B ! k0)\<lparr>island := nis\<rparr>"
  proof -
    have "buf' ! k0 = (is_buf st ! k0)\<lparr>island := nis\<rparr>"
      using k0 G(1) by (simp add: buf'_def)
    also have "\<dots> = (B ! k0)\<lparr>island := nis\<rparr>"
      by (subst G(2)[OF k0]) simp
    finally show ?thesis .
  qed
  have bk: "buf' ! k = is_buf st ! k" if "k \<noteq> k0" for k
    using that by (simp add: buf'_def)
  have ib0: "island (buf' ! k0) = nis" using b0 by simp
  have np0: "\<not> island_placed st k0"
    using mid k0 f0 i0 by (auto simp: island_mid_def)
  have pl0: "island_placed st' k0"
    using k0 G(4) by (simp add: island_placed_def s1 s4 s5)
  have plk: "island_placed st' k = island_placed st k" if k: "k < length B" and ne: "k \<noteq> k0" for k
  proof -
    have r: "remap st' ! k = remap st ! k" using ne by (simp add: s4)
    have b: "is_buf st' ! k = is_buf st ! k" using bk[OF ne] by (simp add: s1)
    show ?thesis
    proof (cases "remap st ! k < length (islandbuf st)")
      case True
      then show ?thesis by (simp add: island_placed_def r b s5 nth_append)
    next
      case False
      have "\<not> island_placed st' k"
      proof
        assume p: "island_placed st' k"
        then have "remap st ! k = length (islandbuf st)"
          using False by (simp add: island_placed_def r s5)
        with p have "buf' ! k0 = is_buf st ! k"
          by (simp add: island_placed_def r b s5)
        then have "uv_corner (buf' ! k0) = uv_corner (is_buf st ! k)" by simp
        then have "uv_corner (B ! k0) = uv_corner (B ! k)"
          using island_inv_face(3)[OF inv k] b0 by (simp add: uv_corner_def)
        from uv_corner_inj[OF dc k0 k this] ne show False by simp
      qed
      with False show ?thesis by (simp add: island_placed_def)
    qed
  qed
  have inv': "island_inv B (length (faces m)) nis (insert efa (set (stack st'))) st'"
  proof (rule island_invI)
    show "length (is_buf st') = length B" by (simp add: s1 lb)
    show "is_buf st' ! k = (B ! k)\<lparr>island := island (is_buf st' ! k)\<rparr>" if "k < length B" for k
    proof (cases "k = k0")
      case True
      then show ?thesis by (simp add: s1 b0)
    next
      case False
      then show ?thesis using G(2)[OF that] by (simp add: s1 bk)
    qed
    show "length (island_number st') = length (faces m)" by (simp add: s2 q1)
    show "length (remap st') = length B" by (simp add: s4 G(4))
    show "island (is_buf st' ! k) = island_number st' ! l_face (B ! k)"
      if k: "k < length B" and a: "island (is_buf st' ! k) \<noteq> INVALID_ISLAND" for k
    proof (cases "k = k0")
      case True
      then show ?thesis by (simp add: s1 s2 ib0 f0 efa_p)
    next
      case False
      then have a': "island (is_buf st ! k) \<noteq> INVALID_ISLAND" using a by (simp add: s1 bk)
      from G(5)[OF k a'] a' have "island_number st ! l_face (B ! k) \<noteq> INVALID_ISLAND" by simp
      from q2[OF island_ctx_loop(1)[OF ctx k] this] G(5)[OF k a'] False
      show ?thesis by (simp add: s1 s2 bk)
    qed
    show "island (is_buf st' ! k) \<noteq> INVALID_ISLAND"
      if k: "k < length B" and p: "island_placed st' k" for k
    proof (cases "k = k0")
      case True
      then show ?thesis by (simp add: s1 ib0 nisI)
    next
      case False
      with plk[OF k False] p G(6)[OF k] show ?thesis by (simp add: s1 bk)
    qed
    show "island_placed st' k"
      if k: "k < length B" and a: "island_number st' ! l_face (B ! k) \<noteq> INVALID_ISLAND"
        and b: "l_face (B ! k) \<notin> insert efa (set (stack st'))" for k
    proof -
      let ?f = "l_face (B ! k)"
      have fF: "?f < length (faces m)" by (rule island_ctx_loop(1)[OF ctx k])
      have ne: "k \<noteq> k0" using b f0 by auto
      have "island_number st ! ?f \<noteq> INVALID_ISLAND"
      proof
        assume "island_number st ! ?f = INVALID_ISLAND"
        from q3[OF fF this] a b show False by (simp add: s2 s3)
      qed
      moreover have "?f \<notin> insert efa (set (stack st))" using b q4 by (auto simp: s3)
      ultimately have "island_placed st k" using G(7)[OF k] by blast
      then show ?thesis using plk[OF k ne] by simp
    qed
    show "\<exists>k<length B. remap st' ! k = j \<and> island_placed st' k"
      if j: "j < length (islandbuf st')" for j
    proof (cases "j = length (islandbuf st)")
      case True
      then show ?thesis using k0 pl0 G(4) by (auto simp: s4)
    next
      case False
      then have "j < length (islandbuf st)" using j by (simp add: s5)
      from G(8)[OF this] obtain k where k: "k < length B" and r: "remap st ! k = j"
        and p: "island_placed st k" by blast
      have ne: "k \<noteq> k0" using p np0 by auto
      then have "remap st' ! k = j" using r by (simp add: s4)
      with k plk[OF k ne] p show ?thesis by blast
    qed
    show "f < length (faces m) \<and> island_number st' ! f = nis"
      if f: "f \<in> insert efa (set (stack st'))" for f
    proof (cases "f = efa")
      case True
      then show ?thesis using efa efa_p by (simp add: s2)
    next
      case False
      with f have "f \<in> set (snd pushed)" by (simp add: s3)
      from q5[OF this] show ?thesis
      proof
        assume "f \<in> set (stack st)"
        then have "f < length (faces m) \<and> island_number st ! f = nis" using G(9)[of f] by simp
        then show ?thesis using q2[of f] nisI by (simp add: s2)
      next
        assume "f < length (faces m) \<and> island_number st ! f = INVALID_ISLAND \<and> fst pushed ! f = nis"
        then show ?thesis by (simp add: s2)
      qed
    qed
    show "l_face (B ! k) \<notin> set (stack st')"
      if k: "k < length B" and p: "island_placed st' k" for k
    proof (cases "k = k0")
      case True
      then show ?thesis using efa_s f0 by (simp add: s3)
    next
      case False
      then have p': "island_placed st k" using plk[OF k False] p by simp
      show ?thesis
      proof
        assume "l_face (B ! k) \<in> set (stack st')"
        then have "l_face (B ! k) \<in> set (snd pushed)" by (simp add: s3)
        from q5[OF this] show False
        proof
          assume "l_face (B ! k) \<in> set (stack st)"
          with G(10)[OF k p'] show False by simp
        next
          assume a: "l_face (B ! k) < length (faces m) \<and>
              island_number st ! l_face (B ! k) = INVALID_ISLAND \<and>
              fst pushed ! l_face (B ! k) = nis"
          from G(5)[OF k G(6)[OF k p']] G(6)[OF k p'] a show False by simp
        qed
      qed
    qed
    show "distinct (stack st')"
    proof -
      have "\<forall>f\<in>set (stack st). f < length (faces m) \<and> island_number st ! f \<noteq> INVALID_ISLAND"
        using G(9) G(12) nisI by auto
      with q6 G(11) show ?thesis by (simp add: s3)
    qed
    show "set (stack st') \<subseteq> insert efa (set (stack st'))" by auto
    show "island (is_buf st' ! k) = INVALID_ISLAND \<or>
          (0 \<le> island (is_buf st' ! k) \<and> island (is_buf st' ! k) \<le> nis)"
      if k: "k < length B" for k
    proof (cases "k = k0")
      case True
      then show ?thesis using nis by (simp add: s1 ib0)
    next
      case False
      then show ?thesis using G(13)[OF k] by (simp add: s1 bk)
    qed
  qed
  have mid': "island_mid B efa (Suc i) st'"
    unfolding island_mid_def
  proof (intro conjI allI impI)
    show "efa \<notin> set (stack st')" using efa_s by (simp add: s3)
  next
    fix k assume k: "k < length B" and f: "l_face (B ! k) = efa"
    show "island_placed st' k \<longleftrightarrow> e_loop_of_poly_index (B ! k) < Suc i"
    proof (cases "k = k0")
      case True
      then show ?thesis using pl0 i0 by simp
    next
      case False
      have "e_loop_of_poly_index (B ! k) \<noteq> i"
      proof
        assume "e_loop_of_poly_index (B ! k) = i"
        with f c0 have "uv_corner (B ! k0) = uv_corner (B ! k)" by (simp add: uv_corner_def)
        from uv_corner_inj[OF dc k0 k this] False show False by simp
      qed
      moreover have "island_placed st k \<longleftrightarrow> e_loop_of_poly_index (B ! k) < i"
        using mid k f by (simp add: island_mid_def)
      ultimately show ?thesis using plk[OF k False] by (auto simp: less_Suc_eq)
    qed
  qed
  have mono: "\<forall>k<length B. island (is_buf st ! k) \<noteq> INVALID_ISLAND \<longrightarrow>
            island (is_buf st' ! k) = island (is_buf st ! k)"
  proof (intro allI impI)
    fix k assume k: "k < length B" and a: "island (is_buf st ! k) \<noteq> INVALID_ISLAND"
    show "island (is_buf st' ! k) = island (is_buf st ! k)"
    proof (cases "k = k0")
      case True
      with G(5)[OF k a] f0 efa_n show ?thesis by (simp add: s1 ib0)
    next
      case False
      then show ?thesis by (simp add: s1 bk)
    qed
  qed
  from inv' mid' mono show ?thesis
    unfolding st'_def l_def by blast
qed

lemma island_find_absent:
  "\<forall>e\<in>set xs. l_face (buf ! e) \<noteq> efa \<Longrightarrow> island_find buf efa xs init = None"
  by (induction xs arbitrary: init) (auto simp: Let_def)

lemma island_corner_absent:
  assumes ctx: "island_ctx m fs us B vert"
    and inv: "island_inv B (length (faces m)) nis (insert efa (set (stack st))) st"
    and mid: "island_mid B efa i st"
    and efa: "efa < length (faces m)" and i: "i < length (f_loops (faces m ! efa))"
    and np: "\<not> face_passes fs (faces m ! efa)"
  shows "island_corner us vert nis efa st (f_loops (faces m ! efa) ! i) = st"
    and "island_mid B efa (Suc i) st"
proof -
  let ?l = "f_loops (faces m ! efa) ! i"
  have none: "l_face (B ! k) \<noteq> efa" if k: "k < length B" for k
    using island_ctx_loop(2)[OF ctx k] np by auto
  have ok: "uv_mesh_ok m" using ctx by (simp add: island_ctx_def)
  have "faces m ! efa \<in> set (faces m)" using efa by simp
  then have lv: "l_v ?l < length (verts m)"
    using ok i by (auto simp: uv_mesh_ok_def list_all_iff)
  from ctx lv have ch: "set (vert ! l_v ?l) =
      {k. k < length B \<and> l_v (uv_element_loop m (B ! k)) = l_v ?l}"
    by (simp add: island_ctx_def)
  have "\<forall>e\<in>set (vert ! l_v ?l). l_face (is_buf st ! e) \<noteq> efa"
  proof
    fix e assume "e \<in> set (vert ! l_v ?l)"
    with ch have e: "e < length B" by simp
    from island_inv_face(1)[OF inv e] none[OF e] show "l_face (is_buf st ! e) \<noteq> efa" by simp
  qed
  from island_find_absent[OF this]
  show "island_corner us vert nis efa st ?l = st"
    by (simp add: island_corner_def)
  show "island_mid B efa (Suc i) st"
    using mid none unfolding island_mid_def by auto
qed

subsection \<open>A popped face\<close>

lemma island_face_loops:
  assumes ctx: "island_ctx m fs us B vert"
    and nis: "0 \<le> nis" and efa: "efa < length (faces m)"
  shows "i \<le> length (f_loops (faces m ! efa)) \<Longrightarrow>
    island_inv B (length (faces m)) nis (insert efa (set (stack st))) st \<Longrightarrow>
    island_mid B efa i st \<Longrightarrow>
    island_inv B (length (faces m)) nis
      (insert efa (set (stack (foldl (island_corner us vert nis efa) st
                                 (drop i (f_loops (faces m ! efa)))))))
      (foldl (island_corner us vert nis efa) st (drop i (f_loops (faces m ! efa)))) \<and>
    island_mid B efa (length (f_loops (faces m ! efa)))
      (foldl (island_corner us vert nis efa) st (drop i (f_loops (faces m ! efa)))) \<and>
    (\<forall>k<length B. island (is_buf st ! k) \<noteq> INVALID_ISLAND \<longrightarrow>
       island (is_buf (foldl (island_corner us vert nis efa) st
                         (drop i (f_loops (faces m ! efa)))) ! k) =
       island (is_buf st ! k))"
proof (induction "length (f_loops (faces m ! efa)) - i" arbitrary: i st)
  case 0
  then have "drop i (f_loops (faces m ! efa)) = []" and "i = length (f_loops (faces m ! efa))"
    by simp_all
  with 0 show ?case by simp
next
  case (Suc d)
  let ?ls = "f_loops (faces m ! efa)"
  have i: "i < length ?ls" using Suc.hyps(2) by simp
  define st1 where "st1 = island_corner us vert nis efa st (?ls ! i)"
  have dr: "drop i ?ls = ?ls ! i # drop (Suc i) ?ls"
    using i by (simp add: Cons_nth_drop_Suc)
  have step: "foldl (island_corner us vert nis efa) st (drop i ?ls) =
      foldl (island_corner us vert nis efa) st1 (drop (Suc i) ?ls)"
    by (simp add: dr st1_def)
  have one: "island_inv B (length (faces m)) nis (insert efa (set (stack st1))) st1 \<and>
      island_mid B efa (Suc i) st1 \<and>
      (\<forall>k<length B. island (is_buf st ! k) \<noteq> INVALID_ISLAND \<longrightarrow>
         island (is_buf st1 ! k) = island (is_buf st ! k))"
  proof (cases "face_passes fs (faces m ! efa)")
    case False
    from island_corner_absent[OF ctx Suc.prems(2) Suc.prems(3) efa i False]
    show ?thesis using Suc.prems(2) by (simp add: st1_def)
  next
    case pass: True
    show ?thesis
    proof (cases "us \<and> \<not> l_uv_sel (?ls ! i)")
      case True
      from island_corner_skip[OF ctx Suc.prems(2) Suc.prems(3) True]
      show ?thesis using Suc.prems(2) by (simp add: st1_def)
    next
      case False
      then have sel: "us \<longrightarrow> l_uv_sel (?ls ! i)" by simp
      from island_corner_inv[OF ctx Suc.prems(2) Suc.prems(3) nis efa pass i sel]
      show ?thesis unfolding st1_def .
    qed
  qed
  have d: "d = length ?ls - Suc i" using Suc.hyps(2) by simp
  have le: "Suc i \<le> length ?ls" using i by simp
  from Suc.hyps(1)[OF d le, of st1] one
  have rest: "island_inv B (length (faces m)) nis
      (insert efa (set (stack (foldl (island_corner us vert nis efa) st1 (drop (Suc i) ?ls)))))
      (foldl (island_corner us vert nis efa) st1 (drop (Suc i) ?ls))"
    and rmid: "island_mid B efa (length ?ls)
      (foldl (island_corner us vert nis efa) st1 (drop (Suc i) ?ls))"
    and rmono: "\<forall>k<length B. island (is_buf st1 ! k) \<noteq> INVALID_ISLAND \<longrightarrow>
       island (is_buf (foldl (island_corner us vert nis efa) st1 (drop (Suc i) ?ls)) ! k) =
       island (is_buf st1 ! k)"
    by blast+
  have mono: "\<forall>k<length B. island (is_buf st ! k) \<noteq> INVALID_ISLAND \<longrightarrow>
       island (is_buf (foldl (island_corner us vert nis efa) st1 (drop (Suc i) ?ls)) ! k) =
       island (is_buf st ! k)"
  proof (intro allI impI)
    fix k assume k: "k < length B" and a: "island (is_buf st ! k) \<noteq> INVALID_ISLAND"
    from one k a have e: "island (is_buf st1 ! k) = island (is_buf st ! k)" by blast
    with a rmono k show "island (is_buf (foldl (island_corner us vert nis efa) st1
        (drop (Suc i) ?ls)) ! k) = island (is_buf st ! k)"
      by simp
  qed
  from rest rmid mono show ?case unfolding step by blast
qed

lemma island_face_inv:
  assumes ctx: "island_ctx m fs us B vert"
    and nis: "0 \<le> nis"
    and inv: "island_inv B (length (faces m)) nis (insert efa (set (stack st))) st"
    and mid: "island_mid B efa 0 st"
  shows "island_inv B (length (faces m)) nis
           (set (stack (island_face m us vert nis efa st)))
           (island_face m us vert nis efa st) \<and>
         (\<forall>k<length B. island (is_buf st ! k) \<noteq> INVALID_ISLAND \<longrightarrow>
            island (is_buf (island_face m us vert nis efa st) ! k) = island (is_buf st ! k))"
proof -
  define st' where "st' = island_face m us vert nis efa st"
  have efa: "efa < length (faces m)" using island_invD(9)[OF inv, of efa] by simp
  from island_face_loops[OF ctx nis efa, of 0 st] inv mid
  have inv': "island_inv B (length (faces m)) nis (insert efa (set (stack st'))) st'"
    and mid': "island_mid B efa (length (f_loops (faces m ! efa))) st'"
    and mono: "\<forall>k<length B. island (is_buf st ! k) \<noteq> INVALID_ISLAND \<longrightarrow>
            island (is_buf st' ! k) = island (is_buf st ! k)"
    unfolding st'_def island_face_def by simp_all
  note G = island_invD[OF inv']
  have pl_all: "island_placed st' k" if k: "k < length B" and f: "l_face (B ! k) = efa" for k
    using mid' k f island_ctx_loop(3)[OF ctx k] by (simp add: island_mid_def)
  have "island_inv B (length (faces m)) nis (set (stack st')) st'"
  proof (rule island_invI)
    show "island_placed st' k"
      if k: "k < length B" and a: "island_number st' ! l_face (B ! k) \<noteq> INVALID_ISLAND"
        and b: "l_face (B ! k) \<notin> set (stack st')" for k
    proof (cases "l_face (B ! k) = efa")
      case True
      then show ?thesis by (rule pl_all[OF k])
    next
      case False
      with b have "l_face (B ! k) \<notin> insert efa (set (stack st'))" by simp
      from G(7)[OF k a this] show ?thesis .
    qed
    show "f < length (faces m) \<and> island_number st' ! f = nis" if "f \<in> set (stack st')" for f
      using G(9)[of f] that by simp
    show "set (stack st') \<subseteq> set (stack st')" by simp
  qed (use G in blast)+
  with mono show ?thesis unfolding st'_def by blast
qed

subsection \<open>The flood\<close>

lemma island_placed_stack: "island_placed (st\<lparr>stack := s\<rparr>) k = island_placed st k"
  by (simp add: island_placed_def)

lemma island_flood_inv:
  "island_ctx m fs us B vert \<Longrightarrow>
   island_inv B (length (faces m)) (int nisn) (set (stack st)) st \<Longrightarrow>
   island_inv B (length (faces m)) (int nisn) {} (island_flood m us vert nisn st) \<and>
   stack (island_flood m us vert nisn st) = [] \<and>
   (\<forall>k<length B. island (is_buf st ! k) \<noteq> INVALID_ISLAND \<longrightarrow>
      island (is_buf (island_flood m us vert nisn st) ! k) = island (is_buf st ! k))"
proof (induction m us vert nisn st rule: island_flood.induct)
  case (1 m us vert nisn st)
  note ctx = "1.prems"(1) and inv = "1.prems"(2)
  show ?case
  proof (cases "stack st")
    case Nil
    then have e: "island_flood m us vert nisn st = st"
      by (subst island_flood.simps) simp
    from inv Nil show ?thesis unfolding e by simp
  next
    case (Cons efa rest)
    define st0 where "st0 = st\<lparr>stack := rest\<rparr>"
    define st1 where "st1 = island_face m us vert (int nisn) efa st0"
    have e: "island_flood m us vert nisn st = island_flood m us vert nisn st1"
      by (subst island_flood.simps) (simp add: Cons st0_def st1_def)
    note G = island_invD[OF inv]
    have d: "efa \<notin> set rest" and dr: "distinct rest" using G(11) Cons by simp_all
    have f0: "is_buf st0 = is_buf st" "island_number st0 = island_number st"
      "remap st0 = remap st" "islandbuf st0 = islandbuf st" "stack st0 = rest"
      by (simp_all add: st0_def)
    have p0: "\<And>k. island_placed st0 k = island_placed st k"
      by (simp add: st0_def island_placed_stack)
    have inv0: "island_inv B (length (faces m)) (int nisn) (insert efa (set (stack st0))) st0"
    proof (rule island_invI)
      show "l_face (B ! k) \<notin> set (stack st0)" if "k < length B" and "island_placed st0 k" for k
        using G(10)[of k] that Cons by (auto simp: f0 p0)
      show "distinct (stack st0)" using dr by (simp add: f0)
      show "set (stack st0) \<subseteq> insert efa (set (stack st0))" by auto
      show "island_placed st0 k"
        if "k < length B" and "island_number st0 ! l_face (B ! k) \<noteq> INVALID_ISLAND"
          and "l_face (B ! k) \<notin> insert efa (set (stack st0))" for k
        using G(7)[of k] that Cons by (simp add: f0 p0)
      show "f < length (faces m) \<and> island_number st0 ! f = int nisn"
        if "f \<in> insert efa (set (stack st0))" for f
        using G(9)[of f] that Cons by (auto simp: f0)
      show "\<exists>k<length B. remap st0 ! k = j \<and> island_placed st0 k"
        if "j < length (islandbuf st0)" for j
        using G(8)[of j] that by (simp add: f0 p0)
      show "island (is_buf st0 ! k) \<noteq> INVALID_ISLAND" if "k < length B" and "island_placed st0 k" for k
        using G(6)[of k] that by (simp add: f0 p0)
      show "length (is_buf st0) = length B" using G(1) by (simp add: f0)
      show "is_buf st0 ! k = (B ! k)\<lparr>island := island (is_buf st0 ! k)\<rparr>" if "k < length B" for k
        unfolding f0 by (rule G(2)[OF that])
      show "length (island_number st0) = length (faces m)" using G(3) by (simp add: f0)
      show "length (remap st0) = length B" using G(4) by (simp add: f0)
      show "island (is_buf st0 ! k) = island_number st0 ! l_face (B ! k)"
        if "k < length B" and "island (is_buf st0 ! k) \<noteq> INVALID_ISLAND" for k
        using G(5)[of k] that by (simp add: f0)
      show "island (is_buf st0 ! k) = INVALID_ISLAND \<or>
          (0 \<le> island (is_buf st0 ! k) \<and> island (is_buf st0 ! k) \<le> int nisn)"
        if "k < length B" for k
        using G(13)[of k] that by (simp add: f0)
    qed
    have mid0: "island_mid B efa 0 st0"
      unfolding island_mid_def
    proof (intro conjI allI impI)
      show "efa \<notin> set (stack st0)" using d by (simp add: f0)
    next
      fix k assume k: "k < length B" and f: "l_face (B ! k) = efa"
      have "\<not> island_placed st k" using G(10)[OF k] f Cons by auto
      then show "island_placed st0 k \<longleftrightarrow> e_loop_of_poly_index (B ! k) < 0"
        by (simp add: p0)
    qed
    have nis: "0 \<le> int nisn" by simp
    from island_face_inv[OF ctx nis inv0 mid0]
    have inv1: "island_inv B (length (faces m)) (int nisn) (set (stack st1)) st1"
      and mono1: "\<forall>k<length B. island (is_buf st0 ! k) \<noteq> INVALID_ISLAND \<longrightarrow>
            island (is_buf st1 ! k) = island (is_buf st0 ! k)"
      unfolding st1_def by blast+
    from "1.IH"[OF Cons ctx, folded st0_def, OF inv1[unfolded st1_def], folded st1_def]
    have r1: "island_inv B (length (faces m)) (int nisn) {} (island_flood m us vert nisn st1)"
      and r2: "stack (island_flood m us vert nisn st1) = []"
      and r3: "\<forall>k<length B. island (is_buf st1 ! k) \<noteq> INVALID_ISLAND \<longrightarrow>
         island (is_buf (island_flood m us vert nisn st1) ! k) = island (is_buf st1 ! k)"
      by blast+
    have mono: "\<forall>k<length B. island (is_buf st ! k) \<noteq> INVALID_ISLAND \<longrightarrow>
         island (is_buf (island_flood m us vert nisn st1) ! k) = island (is_buf st ! k)"
    proof (intro allI impI)
      fix k assume k: "k < length B" and a: "island (is_buf st ! k) \<noteq> INVALID_ISLAND"
      from mono1 k a have e1: "island (is_buf st1 ! k) = island (is_buf st ! k)"
        by (simp add: f0)
      with r3 k a show "island (is_buf (island_flood m us vert nisn st1) ! k) =
          island (is_buf st ! k)" by simp
    qed
    from r1 r2 mono show ?thesis unfolding e by blast
  qed
qed

subsection \<open>The loop over the buffer\<close>

lemma island_inv_next:
  assumes inv: "island_inv B F nis {} st" and le: "nis \<le> nis'"
  shows "island_inv B F nis' {} st"
proof (rule island_invI)
  note G = island_invD[OF inv]
  show "island (is_buf st ! k) = INVALID_ISLAND \<or>
      (0 \<le> island (is_buf st ! k) \<and> island (is_buf st ! k) \<le> nis')" if "k < length B" for k
    using G(13)[OF that] le by auto
  show "f < F \<and> island_number st ! f = nis'" if "f \<in> {}" for f
    using that by simp
  show "length (is_buf st) = length B" by (rule G(1))
  show "is_buf st ! k = (B ! k)\<lparr>island := island (is_buf st ! k)\<rparr>" if "k < length B" for k
    by (rule G(2)[OF that])
  show "length (island_number st) = F" by (rule G(3))
  show "length (remap st) = length B" by (rule G(4))
  show "island (is_buf st ! k) = island_number st ! l_face (B ! k)"
    if "k < length B" and "island (is_buf st ! k) \<noteq> INVALID_ISLAND" for k
    by (rule G(5)[OF that])
  show "island (is_buf st ! k) \<noteq> INVALID_ISLAND" if "k < length B" and "island_placed st k" for k
    by (rule G(6)[OF that])
  show "island_placed st k"
    if "k < length B" and "island_number st ! l_face (B ! k) \<noteq> INVALID_ISLAND"
      and "l_face (B ! k) \<notin> {}" for k
    by (rule G(7)[OF that])
  show "\<exists>k<length B. remap st ! k = j \<and> island_placed st k" if "j < length (islandbuf st)" for j
    by (rule G(8)[OF that])
  show "l_face (B ! k) \<notin> set (stack st)" if "k < length B" and "island_placed st k" for k
    by (rule G(10)[OF that])
  show "distinct (stack st)" by (rule G(11))
  show "set (stack st) \<subseteq> {}" by (rule G(12))
qed

lemma island_seed_inv:
  assumes ctx: "island_ctx m fs us B vert" and i: "i < length B"
    and inv: "island_inv B (length (faces m)) (int nisn) {} st"
    and bound: "\<forall>k<length B. island (is_buf st ! k) = INVALID_ISLAND \<or>
                  island (is_buf st ! k) < int nisn"
  shows "island_inv B (length (faces m)) (int (fst (island_seed m us vert (nisn, st) i))) {}
           (snd (island_seed m us vert (nisn, st) i)) \<and>
         (\<forall>k<length B. island (is_buf (snd (island_seed m us vert (nisn, st) i)) ! k) =
                          INVALID_ISLAND \<or>
            island (is_buf (snd (island_seed m us vert (nisn, st) i)) ! k) <
              int (fst (island_seed m us vert (nisn, st) i))) \<and>
         island (is_buf (snd (island_seed m us vert (nisn, st) i)) ! i) \<noteq> INVALID_ISLAND \<and>
         (\<forall>k<length B. island (is_buf st ! k) \<noteq> INVALID_ISLAND \<longrightarrow>
            island (is_buf (snd (island_seed m us vert (nisn, st) i)) ! k) =
            island (is_buf st ! k)) \<and>
         (fst (island_seed m us vert (nisn, st) i) = nisn \<or>
          (fst (island_seed m us vert (nisn, st) i) = nisn + 1 \<and>
           island (is_buf (snd (island_seed m us vert (nisn, st) i)) ! i) = int nisn))"
proof (cases "island (is_buf st ! i) = INVALID_ISLAND")
  case False
  then have e: "island_seed m us vert (nisn, st) i = (nisn, st)"
    by (simp add: island_seed_def)
  from inv bound False show ?thesis unfolding e by simp
next
  case True
  note G = island_invD[OF inv]
  have dc: "distinct (map uv_corner B)" using ctx by (simp add: island_ctx_def)
  define nis where "nis = int nisn"
  have nisI: "nis \<noteq> INVALID_ISLAND" by (simp add: nis_def INVALID_ISLAND_def)
  define buf1 where "buf1 = (is_buf st)[i := (is_buf st ! i)\<lparr>island := nis\<rparr>]"
  define f where "f = l_face (B ! i)"
  have fF: "f < length (faces m)" unfolding f_def by (rule island_ctx_loop(1)[OF ctx i])
  have b1i: "buf1 ! i = (B ! i)\<lparr>island := nis\<rparr>"
  proof -
    have "buf1 ! i = (is_buf st ! i)\<lparr>island := nis\<rparr>" using i G(1) by (simp add: buf1_def)
    also have "\<dots> = (B ! i)\<lparr>island := nis\<rparr>" by (subst G(2)[OF i]) simp
    finally show ?thesis .
  qed
  have b1k: "buf1 ! k = is_buf st ! k" if "k \<noteq> i" for k using that by (simp add: buf1_def)
  have fe: "l_face (buf1 ! i) = f" by (simp add: b1i f_def)
  define st1 where "st1 = st\<lparr>is_buf := buf1,
      island_number := (island_number st)[f := nis], stack := [f]\<rparr>"
  have e: "island_seed m us vert (nisn, st) i = (nisn + 1, island_flood m us vert nisn st1)"
    using True fe[unfolded buf1_def nis_def]
    by (simp add: island_seed_def Let_def st1_def buf1_def nis_def del: island_flood.simps)
  have s1: "is_buf st1 = buf1" "island_number st1 = (island_number st)[f := nis]"
    "stack st1 = [f]" "remap st1 = remap st" "islandbuf st1 = islandbuf st"
    by (simp_all add: st1_def)
  have npi: "\<not> island_placed st i" using G(6)[OF i] True by auto
  have fn: "island_number st ! f = INVALID_ISLAND"
  proof (rule ccontr)
    assume "island_number st ! f \<noteq> INVALID_ISLAND"
    from G(7)[OF i this[unfolded f_def]] npi show False by simp
  qed
  have n1: "island_number st1 ! g = (if g = f then nis else island_number st ! g)"
    if "g < length (faces m)" for g
    using that G(3) by (simp add: s1 nth_list_update)
  have plk: "island_placed st1 k = island_placed st k" if "k \<noteq> i" for k
    using that by (simp add: island_placed_def s1 b1k)
  have npi1: "\<not> island_placed st1 i"
  proof
    assume p: "island_placed st1 i"
    then have j: "remap st ! i < length (islandbuf st)"
      and eq: "islandbuf st ! (remap st ! i) = buf1 ! i"
      by (simp_all add: island_placed_def s1)
    from G(8)[OF j] obtain k where k: "k < length B" and r: "remap st ! k = remap st ! i"
      and pk: "island_placed st k" by blast
    from pk r eq have "is_buf st ! k = buf1 ! i" by (simp add: island_placed_def)
    then have "uv_corner (is_buf st ! k) = uv_corner (buf1 ! i)" by simp
    then have "uv_corner (B ! k) = uv_corner (B ! i)"
      using island_inv_face(3)[OF inv k] b1i by (simp add: uv_corner_def)
    from uv_corner_inj[OF dc k i this] pk npi show False by simp
  qed
  have pl: "island_placed st1 k = island_placed st k" for k
    using plk[of k] npi npi1 by (cases "k = i") simp_all
  have inv1: "island_inv B (length (faces m)) nis (set (stack st1)) st1"
  proof (rule island_invI)
    show "length (is_buf st1) = length B" using G(1) by (simp add: s1 buf1_def)
    show "is_buf st1 ! k = (B ! k)\<lparr>island := island (is_buf st1 ! k)\<rparr>" if "k < length B" for k
    proof (cases "k = i")
      case True
      then show ?thesis by (simp add: s1 b1i)
    next
      case False
      then show ?thesis using G(2)[OF that] by (simp add: s1 b1k)
    qed
    show "length (island_number st1) = length (faces m)" using G(3) by (simp add: s1)
    show "length (remap st1) = length B" using G(4) by (simp add: s1)
    show "island (is_buf st1 ! k) = island_number st1 ! l_face (B ! k)"
      if k: "k < length B" and a: "island (is_buf st1 ! k) \<noteq> INVALID_ISLAND" for k
    proof (cases "k = i")
      case True
      then show ?thesis using n1[OF fF] by (simp add: s1(1) b1i f_def)
    next
      case False
      then have a': "island (is_buf st ! k) \<noteq> INVALID_ISLAND" using a by (simp add: s1 b1k)
      from G(5)[OF k a'] a' fn have "l_face (B ! k) \<noteq> f" by auto
      with n1[OF island_ctx_loop(1)[OF ctx k]] G(5)[OF k a'] False
      show ?thesis by (simp add: s1(1) b1k)
    qed
    show "island (is_buf st1 ! k) \<noteq> INVALID_ISLAND"
      if k: "k < length B" and p: "island_placed st1 k" for k
    proof -
      from p have "island_placed st k" by (simp add: pl)
      with npi have "k \<noteq> i" by auto
      with G(6)[OF k \<open>island_placed st k\<close>] show ?thesis by (simp add: s1 b1k)
    qed
    show "island_placed st1 k"
      if k: "k < length B" and a: "island_number st1 ! l_face (B ! k) \<noteq> INVALID_ISLAND"
        and b: "l_face (B ! k) \<notin> set (stack st1)" for k
    proof -
      from b have ne: "l_face (B ! k) \<noteq> f" by (simp add: s1)
      with n1[OF island_ctx_loop(1)[OF ctx k]] a
      have "island_number st ! l_face (B ! k) \<noteq> INVALID_ISLAND" by simp
      from G(7)[OF k this] show ?thesis by (simp add: pl)
    qed
    show "\<exists>k<length B. remap st1 ! k = j \<and> island_placed st1 k"
      if "j < length (islandbuf st1)" for j
      using G(8)[of j] that by (simp add: s1 pl)
    show "g < length (faces m) \<and> island_number st1 ! g = nis" if "g \<in> set (stack st1)" for g
      using that fF n1[OF fF] by (simp add: s1(3))
    show "l_face (B ! k) \<notin> set (stack st1)" if k: "k < length B" and p: "island_placed st1 k" for k
    proof -
      from p have p': "island_placed st k" by (simp add: pl)
      from G(5)[OF k G(6)[OF k p']] G(6)[OF k p'] fn have "l_face (B ! k) \<noteq> f" by auto
      then show ?thesis by (simp add: s1)
    qed
    show "distinct (stack st1)" by (simp add: s1)
    show "set (stack st1) \<subseteq> set (stack st1)" by simp
    show "island (is_buf st1 ! k) = INVALID_ISLAND \<or>
        (0 \<le> island (is_buf st1 ! k) \<and> island (is_buf st1 ! k) \<le> nis)" if k: "k < length B" for k
    proof (cases "k = i")
      case True
      then show ?thesis by (simp add: s1(1) b1i nis_def)
    next
      case False
      with G(13)[OF k] bound k show ?thesis by (auto simp: s1(1) b1k nis_def)
    qed
  qed
  define st2 where "st2 = island_flood m us vert nisn st1"
  from island_flood_inv[OF ctx inv1[unfolded nis_def]]
  have inv2: "island_inv B (length (faces m)) (int nisn) {} st2"
    and mono2: "\<forall>k<length B. island (is_buf st1 ! k) \<noteq> INVALID_ISLAND \<longrightarrow>
         island (is_buf st2 ! k) = island (is_buf st1 ! k)"
    unfolding st2_def by blast+
  have r1: "island_inv B (length (faces m)) (int (nisn + 1)) {} st2"
    by (rule island_inv_next[OF inv2]) simp
  have r2: "\<forall>k<length B. island (is_buf st2 ! k) = INVALID_ISLAND \<or>
      island (is_buf st2 ! k) < int (nisn + 1)"
  proof (intro allI impI)
    fix k assume "k < length B"
    from island_invD(13)[OF inv2 this]
    show "island (is_buf st2 ! k) = INVALID_ISLAND \<or> island (is_buf st2 ! k) < int (nisn + 1)"
      by auto
  qed
  have "island (is_buf st1 ! i) = nis" by (simp add: s1(1) b1i)
  with mono2 i nisI have r5: "island (is_buf st2 ! i) = nis" by simp
  with nisI have r3: "island (is_buf st2 ! i) \<noteq> INVALID_ISLAND" by simp
  have r4: "\<forall>k<length B. island (is_buf st ! k) \<noteq> INVALID_ISLAND \<longrightarrow>
      island (is_buf st2 ! k) = island (is_buf st ! k)"
  proof (intro allI impI)
    fix k assume k: "k < length B" and a: "island (is_buf st ! k) \<noteq> INVALID_ISLAND"
    then have "k \<noteq> i" using True by auto
    then have "is_buf st1 ! k = is_buf st ! k" by (simp add: s1(1) b1k)
    with mono2 k a show "island (is_buf st2 ! k) = island (is_buf st ! k)" by simp
  qed
  from r1 r2 r3 r4 r5[unfolded nis_def] show ?thesis
    unfolding e st2_def[symmetric] fst_conv snd_conv by blast
qed

subsection \<open>The buffer and chains given to the island pass\<close>

lemma uv_fill_inv_skip:
  assumes inv: "uv_fill_inv m fs us j i st"
    and ne: "\<not> uv_corner_eligible m fs us (j, i)"
  shows "uv_fill_inv m fs us j (Suc i) st"
proof -
  have "{c. uv_corner_eligible m fs us c \<and> (fst c < j \<or> (fst c = j \<and> snd c < Suc i))} =
        {c. uv_corner_eligible m fs us c \<and> (fst c < j \<or> (fst c = j \<and> snd c < i))}"
    using ne by (auto simp: less_Suc_eq)
  with inv show ?thesis by (simp add: uv_fill_inv_def)
qed

lemma uv_fill_inv_push:
  assumes inv: "uv_fill_inv m fs us j i (buf, vert)"
    and el: "uv_corner_eligible m fs us (j, i)"
    and lv: "l_v (f_loops (faces m ! j) ! i) < length (verts m)"
  shows "uv_fill_inv m fs us j (Suc i)
           (buf @ [\<lparr>l_face = j, e_loop_of_poly_index = i, e_separate = False,
                    island = INVALID_ISLAND\<rparr>],
            vert[l_v (f_loops (faces m ! j) ! i) := length buf # vert ! l_v (f_loops (faces m ! j) ! i)])"
proof -
  define e where "e = \<lparr>l_face = j, e_loop_of_poly_index = i, e_separate = False,
                    island = INVALID_ISLAND\<rparr>"
  define v where "v = l_v (f_loops (faces m ! j) ! i)"
  define buf' where "buf' = buf @ [e]"
  define vert' where "vert' = vert[v := length buf # vert ! v]"
  from inv have I1: "\<forall>e\<in>set buf. island e = INVALID_ISLAND"
    and I2: "distinct (map uv_corner buf)"
    and I3: "uv_corner ` set buf =
        {c. uv_corner_eligible m fs us c \<and> (fst c < j \<or> (fst c = j \<and> snd c < i))}"
    and I4: "length vert = length (verts m)"
    and I5: "\<forall>a<length (verts m).
         set (vert ! a) = {k. k < length buf \<and> l_v (uv_element_loop m (buf ! k)) = a}"
    by (simp_all add: uv_fill_inv_def)
  have ce: "uv_corner e = (j, i)" by (simp add: uv_corner_def e_def)
  have le: "l_v (uv_element_loop m e) = v" by (simp add: uv_element_loop_def e_def v_def)
  have J1: "\<forall>x\<in>set buf'. island x = INVALID_ISLAND"
    using I1 by (simp add: buf'_def e_def)
  have "(j, i) \<notin> uv_corner ` set buf" unfolding I3 by simp
  then have J2: "distinct (map uv_corner buf')"
    using I2 by (simp add: buf'_def ce)
  have "{c. uv_corner_eligible m fs us c \<and> (fst c < j \<or> (fst c = j \<and> snd c < Suc i))} =
        insert (j, i) {c. uv_corner_eligible m fs us c \<and> (fst c < j \<or> (fst c = j \<and> snd c < i))}"
    using el by (auto simp: less_Suc_eq)
  then have J3: "uv_corner ` set buf' =
        {c. uv_corner_eligible m fs us c \<and> (fst c < j \<or> (fst c = j \<and> snd c < Suc i))}"
    using I3 by (simp add: buf'_def ce)
  have J4: "length vert' = length (verts m)" using I4 by (simp add: vert'_def)
  have J5: "set (vert' ! a) = {k. k < length buf' \<and> l_v (uv_element_loop m (buf' ! k)) = a}"
    if a: "a < length (verts m)" for a
  proof -
    have nth: "buf' ! k = (if k < length buf then buf ! k else e)" if "k < length buf'" for k
      using that by (auto simp: buf'_def nth_append less_Suc_eq)
    have R: "{k. k < length buf' \<and> l_v (uv_element_loop m (buf' ! k)) = a} =
        {k. k < length buf \<and> l_v (uv_element_loop m (buf ! k)) = a} \<union>
        (if v = a then {length buf} else {})"
      using le by (auto simp: buf'_def nth_append less_Suc_eq)
    have L: "set (vert' ! a) = set (vert ! a) \<union> (if v = a then {length buf} else {})"
      using a I4 lv by (auto simp: vert'_def v_def nth_list_update)
    show ?thesis unfolding L R using I5 a by simp
  qed
  from J1 J2 J3 J4 J5 show ?thesis
    unfolding uv_fill_inv_def fst_conv snd_conv buf'_def[symmetric] e_def[symmetric]
      v_def[symmetric] vert'_def[symmetric]
    by blast
qed

lemma uv_element_fill_loops_ctx:
  assumes ok: "uv_mesh_ok m" and j: "j < length (faces m)"
    and pass: "face_passes fs (faces m ! j)"
  shows "drop i (f_loops (faces m ! j)) = ls \<Longrightarrow> uv_fill_inv m fs us j i (buf, vert) \<Longrightarrow>
     uv_fill_inv m fs us j (length (f_loops (faces m ! j)))
       (uv_element_fill_loops us j i ls (buf, vert))"
proof (induction ls arbitrary: i buf vert)
  case Nil
  then have "length (f_loops (faces m ! j)) \<le> i" by simp
  then have "{c. uv_corner_eligible m fs us c \<and>
                 (fst c < j \<or> (fst c = j \<and> snd c < length (f_loops (faces m ! j))))} =
             {c. uv_corner_eligible m fs us c \<and> (fst c < j \<or> (fst c = j \<and> snd c < i))}"
    by (auto simp: uv_corner_eligible_def)
  with Nil.prems(2) show ?case by (simp add: uv_fill_inv_def)
next
  case (Cons l ls)
  let ?L = "f_loops (faces m ! j)"
  from Cons.prems(1) have i: "i < length ?L"
    by (cases "i < length ?L") auto
  from Cons.prems(1) Cons_nth_drop_Suc[OF i] have l: "l = ?L ! i" and ls: "drop (Suc i) ?L = ls"
    by simp_all
  have fin: "faces m ! j \<in> set (faces m)" using j by simp
  have lv: "l_v (?L ! i) < length (verts m)"
    using ok fin i by (auto simp: uv_mesh_ok_def list_all_iff)
  show ?case
  proof (cases "us \<and> \<not> l_uv_sel l")
    case True
    then have step: "uv_element_fill_loops us j i (l # ls) (buf, vert) =
        uv_element_fill_loops us j (Suc i) ls (buf, vert)"
      by simp
    have "\<not> uv_corner_eligible m fs us (j, i)"
      using True l by (simp add: uv_corner_eligible_def)
    from Cons.IH[OF ls uv_fill_inv_skip[OF Cons.prems(2) this]] show ?thesis
      unfolding step .
  next
    case False
    have step: "uv_element_fill_loops us j i (l # ls) (buf, vert) =
        uv_element_fill_loops us j (Suc i) ls
          (buf @ [\<lparr>l_face = j, e_loop_of_poly_index = i, e_separate = False,
                    island = INVALID_ISLAND\<rparr>],
            vert[l_v (?L ! i) := length buf # vert ! l_v (?L ! i)])"
      using False by (auto simp: l)
    have el: "uv_corner_eligible m fs us (j, i)"
      using False l j pass i by (auto simp: uv_corner_eligible_def)
    from Cons.IH[OF ls uv_fill_inv_push[OF Cons.prems(2) el lv]] show ?thesis
      unfolding step .
  qed
qed

lemma uv_fill_inv_next:
  assumes "uv_fill_inv m fs us j i st"
    and "j < length (faces m) \<longrightarrow>
         face_passes fs (faces m ! j) \<longrightarrow> i = length (f_loops (faces m ! j))"
    and "j < length (faces m) \<longrightarrow> \<not> face_passes fs (faces m ! j) \<longrightarrow> i = 0"
  shows "uv_fill_inv m fs us (Suc j) 0 st"
proof -
  have "{c. uv_corner_eligible m fs us c \<and> (fst c < Suc j \<or> (fst c = Suc j \<and> snd c < 0))} =
        {c. uv_corner_eligible m fs us c \<and> (fst c < j \<or> (fst c = j \<and> snd c < i))}"
    using assms(2,3) by (auto simp: uv_corner_eligible_def less_Suc_eq)
  with assms(1) show ?thesis by (simp add: uv_fill_inv_def)
qed

lemma uv_element_fill_faces_ctx:
  assumes ok: "uv_mesh_ok m"
  shows "drop j (faces m) = rest \<Longrightarrow> uv_fill_inv m fs us j 0 st \<Longrightarrow>
     uv_fill_inv m fs us (length (faces m)) 0 (uv_element_fill_faces fs us j rest st)"
proof (induction rest arbitrary: j st)
  case Nil
  then have le: "length (faces m) \<le> j" by simp
  then have "{c. uv_corner_eligible m fs us c \<and>
                 (fst c < length (faces m) \<or> (fst c = length (faces m) \<and> snd c < 0))} =
             {c. uv_corner_eligible m fs us c \<and> (fst c < j \<or> (fst c = j \<and> snd c < 0))}"
    by (auto simp: uv_corner_eligible_def)
  with Nil.prems(2) show ?case by (simp add: uv_fill_inv_def)
next
  case (Cons efa rest)
  from Cons.prems(1) have j: "j < length (faces m)"
    by (cases "j < length (faces m)") auto
  from Cons.prems(1) Cons_nth_drop_Suc[OF j] have efa: "efa = faces m ! j"
    and rest: "drop (Suc j) (faces m) = rest"
    by simp_all
  obtain buf vert where st: "st = (buf, vert)" by (cases st)
  show ?case
  proof (cases "face_passes fs efa")
    case True
    define st' where "st' = uv_element_fill_loops us j 0 (f_loops efa) (buf, vert)"
    have step: "uv_element_fill_faces fs us j (efa # rest) st =
        uv_element_fill_faces fs us (Suc j) rest st'"
      using True by (simp add: st st'_def)
    have "uv_fill_inv m fs us j (length (f_loops (faces m ! j))) st'"
      unfolding st'_def efa
      by (rule uv_element_fill_loops_ctx[OF ok j True[unfolded efa]])
         (use Cons.prems(2) in \<open>simp_all add: st\<close>)
    then have "uv_fill_inv m fs us (Suc j) 0 st'"
      by (rule uv_fill_inv_next) (use True efa in simp_all)
    from Cons.IH[OF rest this] show ?thesis unfolding step .
  next
    case False
    then have step: "uv_element_fill_faces fs us j (efa # rest) st =
        uv_element_fill_faces fs us (Suc j) rest st"
      by simp
    have "uv_fill_inv m fs us (Suc j) 0 st"
      by (rule uv_fill_inv_next[OF Cons.prems(2)]) (use False efa in simp_all)
    from Cons.IH[OF rest this] show ?thesis unfolding step .
  qed
qed

lemma uv_element_filled_ctx:
  assumes ok: "uv_mesh_ok m"
  shows "uv_fill_inv m fs us (length (faces m)) 0 (uv_element_filled m fs us)"
  unfolding uv_element_filled_def
  by (rule uv_element_fill_faces_ctx[OF ok]) (simp_all add: uv_fill_inv_def)

lemma uv_element_count_loops_add:
  "uv_element_count_loops ls n = n + length (filter l_uv_sel ls)"
  by (induction ls arbitrary: n) simp_all

lemma uv_element_fill_loops_length:
  "length (fst (uv_element_fill_loops us j i ls (buf, vert))) =
     (if us then uv_element_count_loops ls (length buf) else length buf + length ls)"
proof (induction ls arbitrary: i buf vert)
  case Nil
  then show ?case by simp
next
  case (Cons l ls)
  show ?case
  proof (cases "us \<and> \<not> l_uv_sel l")
    case True
    then have step: "uv_element_fill_loops us j i (l # ls) (buf, vert) =
        uv_element_fill_loops us j (i + 1) ls (buf, vert)"
      by simp
    from True show ?thesis unfolding step Cons.IH by simp
  next
    case False
    have step: "uv_element_fill_loops us j i (l # ls) (buf, vert) =
        uv_element_fill_loops us j (i + 1) ls
          (buf @ [\<lparr>l_face = j, e_loop_of_poly_index = i, e_separate = False,
                    island = INVALID_ISLAND\<rparr>],
            vert[l_v l := length buf # vert ! l_v l])"
      using False by auto
    from False show ?thesis unfolding step Cons.IH by auto
  qed
qed

lemma uv_element_fill_faces_length:
  "length (fst (uv_element_fill_faces fs us j rest st)) =
     uv_element_count fs us rest (length (fst st))"
proof (induction rest arbitrary: j st)
  case Nil
  then show ?case by simp
next
  case (Cons efa rest)
  obtain buf vert where st: "st = (buf, vert)" by (cases st)
  show ?case
    using uv_element_fill_loops_length[of us j 0 "f_loops efa" buf vert]
    by (simp add: Cons.IH st)
qed

lemma uv_element_filled_length:
  "length (fst (uv_element_filled m fs us)) = uv_element_count fs us (faces m) 0"
  unfolding uv_element_filled_def by (simp add: uv_element_fill_faces_length)

lemma uv_element_sorted_ctx:
  assumes ok: "uv_mesh_ok m"
  shows "island_ctx m fs us (fst (uv_element_sorted m fs us uw stale))
           (snd (uv_element_sorted m fs us uw stale))"
    and "\<forall>k<length (fst (uv_element_sorted m fs us uw stale)).
           island (fst (uv_element_sorted m fs us uw stale) ! k) = INVALID_ISLAND"
    and "length (fst (uv_element_sorted m fs us uw stale)) = uv_element_count fs us (faces m) 0"
proof -
  define buf0 where "buf0 = fst (uv_element_filled m fs us)"
  define vert0 where "vert0 = snd (uv_element_filled m fs us)"
  define winding where "winding = uv_element_winding fs us stale 0 (faces m)"
  define conn where "conn = uv_element_connected m uw winding buf0"
  define st where "st = foldl (uv_sort_vert conn (\<lambda>v. v\<lparr>e_separate := True\<rparr>)) (buf0, vert0)
                          [0..<length vert0]"
  define B where "B = fst st"
  define vert where "vert = snd st"
  have filled: "uv_element_filled m fs us = (buf0, vert0)"
    by (simp add: buf0_def vert0_def)
  from uv_element_filled_ctx[OF ok, of fs us]
  have I1: "\<forall>e\<in>set buf0. island e = INVALID_ISLAND"
    and I2: "distinct (map uv_corner buf0)"
    and I3: "uv_corner ` set buf0 =
        {c. uv_corner_eligible m fs us c \<and>
            (fst c < length (faces m) \<or> (fst c = length (faces m) \<and> snd c < 0))}"
    and I4: "length vert0 = length (verts m)"
    and I5: "\<forall>a<length (verts m).
         set (vert0 ! a) = {k. k < length buf0 \<and> l_v (uv_element_loop m (buf0 ! k)) = a}"
    unfolding uv_fill_inv_def filled fst_conv snd_conv by blast+
  have E: "uv_corner ` set buf0 = {c. uv_corner_eligible m fs us c}"
    unfolding I3 by (auto simp: uv_corner_eligible_def)
  have sorted: "uv_element_sorted m fs us uw stale = st"
    unfolding uv_element_sorted_def Let_def filled fst_conv winding_def[symmetric]
      conn_def[symmetric] st_def I4 ..
  have mk: "\<And>e :: UvElement. e\<lparr>e_separate := True\<rparr>\<lparr>e_separate := True\<rparr> = e\<lparr>e_separate := True\<rparr>"
    by simp
  have rng: "\<forall>a<length vert0. \<forall>k\<in>set (vert0 ! a). k < length buf0"
    using I5 I4 by auto
  from uv_sort_fold[OF mk rng order_refl, of conn]
  have lB: "length B = length buf0" and lv: "length vert = length vert0"
    and ch: "\<forall>a<length vert0. vert ! a = concat (rev (map rev (uv_spec_groups conn (vert0 ! a))))"
    and bk: "\<forall>k<length buf0. B ! k =
       (if \<exists>a<length vert0. k \<in> last ` set (uv_spec_groups conn (vert0 ! a))
        then (buf0 ! k)\<lparr>e_separate := True\<rparr> else buf0 ! k)"
    unfolding B_def vert_def st_def by simp_all
  have same: "uv_corner (B ! k) = uv_corner (buf0 ! k) \<and> island (B ! k) = island (buf0 ! k) \<and>
      uv_element_loop m (B ! k) = uv_element_loop m (buf0 ! k)" if "k < length buf0" for k
  proof -
    from bk that have "B ! k = (buf0 ! k)\<lparr>e_separate := True\<rparr> \<or> B ! k = buf0 ! k"
      by (metis (no_types, lifting))
    then show ?thesis by (auto simp: uv_corner_def uv_element_loop_def)
  qed
  have cm: "map uv_corner B = map uv_corner buf0"
    by (rule nth_equalityI) (simp_all add: lB same)
  have sets: "set (vert ! a) = set (vert0 ! a)" if "a < length vert0" for a
  proof -
    from ch that have "set (vert ! a) = set (concat (uv_spec_groups conn (vert0 ! a)))"
      by auto
    then show ?thesis by (simp only: uv_spec_groups_set)
  qed
  have C1: "\<forall>k<length B. uv_corner_eligible m fs us (uv_corner (B ! k))"
  proof (intro allI impI)
    fix k assume k: "k < length B"
    then have "uv_corner (B ! k) = uv_corner (buf0 ! k)" using same lB by simp
    moreover have "uv_corner (buf0 ! k) \<in> uv_corner ` set buf0" using k lB by simp
    ultimately show "uv_corner_eligible m fs us (uv_corner (B ! k))" unfolding E by simp
  qed
  have C2: "distinct (map uv_corner B)" unfolding cm by (rule I2)
  have "uv_corner ` set B = set (map uv_corner B)" by simp
  also have "\<dots> = uv_corner ` set buf0" unfolding cm by simp
  finally have C3: "\<forall>c. uv_corner_eligible m fs us c \<longrightarrow> c \<in> uv_corner ` set B"
    unfolding E by simp
  have C4: "length vert = length (verts m)" using lv I4 by simp
  have C5: "\<forall>a<length (verts m).
         set (vert ! a) = {k. k < length B \<and> l_v (uv_element_loop m (B ! k)) = a}"
  proof (intro allI impI)
    fix a assume a: "a < length (verts m)"
    have "set (vert ! a) = {k. k < length buf0 \<and> l_v (uv_element_loop m (buf0 ! k)) = a}"
      using sets[of a] I5 a I4 by simp
    also have "\<dots> = {k. k < length B \<and> l_v (uv_element_loop m (B ! k)) = a}"
      using same lB by auto
    finally show "set (vert ! a) = {k. k < length B \<and> l_v (uv_element_loop m (B ! k)) = a}" .
  qed
  from ok C1 C2 C3 C4 C5
  show "island_ctx m fs us (fst (uv_element_sorted m fs us uw stale))
           (snd (uv_element_sorted m fs us uw stale))"
    unfolding sorted island_ctx_def B_def[symmetric] vert_def[symmetric] by blast
  show "\<forall>k<length (fst (uv_element_sorted m fs us uw stale)).
           island (fst (uv_element_sorted m fs us uw stale) ! k) = INVALID_ISLAND"
    unfolding sorted B_def[symmetric] using same lB I1 by simp
  show "length (fst (uv_element_sorted m fs us uw stale)) = uv_element_count fs us (faces m) 0"
    unfolding sorted B_def[symmetric] lB buf0_def by (rule uv_element_filled_length)
qed

subsection \<open>All rounds\<close>

lemma island_init_inv:
  assumes ctx: "island_ctx m fs us B vert"
    and un: "\<forall>k<length B. island (B ! k) = INVALID_ISLAND"
  shows "island_inv B (length (faces m)) 0 {}
           \<lparr>is_buf = B, island_number = replicate (length (faces m)) INVALID_ISLAND,
            stack = [], remap = replicate (length B) 0, islandbuf = []\<rparr>"
proof (rule island_invI)
  let ?st = "\<lparr>is_buf = B, island_number = replicate (length (faces m)) INVALID_ISLAND,
            stack = [], remap = replicate (length B) 0, islandbuf = []\<rparr>"
  show "length (is_buf ?st) = length B" by simp
  show "is_buf ?st ! k = (B ! k)\<lparr>island := island (is_buf ?st ! k)\<rparr>" if "k < length B" for k
    by simp
  show "length (island_number ?st) = length (faces m)" by simp
  show "length (remap ?st) = length B" by simp
  show "island (is_buf ?st ! k) = island_number ?st ! l_face (B ! k)"
    if "k < length B" and "island (is_buf ?st ! k) \<noteq> INVALID_ISLAND" for k
    using that un by simp
  show "island (is_buf ?st ! k) \<noteq> INVALID_ISLAND" if "k < length B" and "island_placed ?st k" for k
    using that by (simp add: island_placed_def)
  show "island_placed ?st k"
    if "k < length B" and "island_number ?st ! l_face (B ! k) \<noteq> INVALID_ISLAND"
      and "l_face (B ! k) \<notin> {}" for k
    using that island_ctx_loop(1)[OF ctx that(1)] by simp
  show "\<exists>k<length B. remap ?st ! k = j \<and> island_placed ?st k" if "j < length (islandbuf ?st)" for j
    using that by simp
  show "f < length (faces m) \<and> island_number ?st ! f = 0" if "f \<in> {}" for f
    using that by simp
  show "l_face (B ! k) \<notin> set (stack ?st)" if "k < length B" and "island_placed ?st k" for k
    by simp
  show "distinct (stack ?st)" by simp
  show "set (stack ?st) \<subseteq> {}" by simp
  show "island (is_buf ?st ! k) = INVALID_ISLAND \<or>
      (0 \<le> island (is_buf ?st ! k) \<and> island (is_buf ?st ! k) \<le> 0)" if "k < length B" for k
    using that un by simp
qed

lemma island_rounds_inv:
  assumes ctx: "island_ctx m fs us B vert"
    and inv0: "island_inv B (length (faces m)) 0 {} st0"
    and un: "\<forall>k<length B. island (is_buf st0 ! k) = INVALID_ISLAND"
  shows "j \<le> length B \<Longrightarrow>
     island_inv B (length (faces m))
       (int (fst (foldl (island_seed m us vert) (0, st0) [0..<j]))) {}
       (snd (foldl (island_seed m us vert) (0, st0) [0..<j])) \<and>
     (\<forall>k<length B.
        island (is_buf (snd (foldl (island_seed m us vert) (0, st0) [0..<j])) ! k) =
          INVALID_ISLAND \<or>
        island (is_buf (snd (foldl (island_seed m us vert) (0, st0) [0..<j])) ! k) <
          int (fst (foldl (island_seed m us vert) (0, st0) [0..<j]))) \<and>
     (\<forall>k<j. island (is_buf (snd (foldl (island_seed m us vert) (0, st0) [0..<j])) ! k) \<noteq>
        INVALID_ISLAND) \<and>
     (\<forall>n'<fst (foldl (island_seed m us vert) (0, st0) [0..<j]). \<exists>k<length B.
        island (is_buf (snd (foldl (island_seed m us vert) (0, st0) [0..<j])) ! k) = int n')"
proof (induction j)
  case 0
  from inv0 un show ?case by simp
next
  case (Suc j)
  define r where "r = foldl (island_seed m us vert) (0, st0) [0..<j]"
  define n where "n = fst r"
  define st where "st = snd r"
  have r: "r = (n, st)" by (simp add: n_def st_def)
  have jB: "j < length B" using Suc.prems by simp
  from Suc.IH jB have inv: "island_inv B (length (faces m)) (int n) {} st"
    and bound: "\<forall>k<length B. island (is_buf st ! k) = INVALID_ISLAND \<or>
                  island (is_buf st ! k) < int n"
    and asg: "\<forall>k<j. island (is_buf st ! k) \<noteq> INVALID_ISLAND"
    and used: "\<forall>n'<n. \<exists>k<length B. island (is_buf st ! k) = int n'"
    unfolding r_def[symmetric] n_def[symmetric] st_def[symmetric] by simp_all
  define r' where "r' = island_seed m us vert (n, st) j"
  have step: "foldl (island_seed m us vert) (0, st0) [0..<Suc j] = r'"
    by (simp add: r'_def r_def[symmetric] r)
  from island_seed_inv[OF ctx jB inv bound]
  have a: "island_inv B (length (faces m)) (int (fst r')) {} (snd r')"
    and b: "\<forall>k<length B. island (is_buf (snd r') ! k) = INVALID_ISLAND \<or>
            island (is_buf (snd r') ! k) < int (fst r')"
    and c: "island (is_buf (snd r') ! j) \<noteq> INVALID_ISLAND"
    and d: "\<forall>k<length B. island (is_buf st ! k) \<noteq> INVALID_ISLAND \<longrightarrow>
            island (is_buf (snd r') ! k) = island (is_buf st ! k)"
    and g: "fst r' = n \<or> (fst r' = n + 1 \<and> island (is_buf (snd r') ! j) = int n)"
    unfolding r'_def by blast+
  have e: "island (is_buf (snd r') ! k) \<noteq> INVALID_ISLAND" if "k < Suc j" for k
  proof (cases "k = j")
    case True
    with c show ?thesis by simp
  next
    case False
    with that have kj: "k < j" by simp
    with jB have "k < length B" by simp
    with d asg kj show ?thesis by simp
  qed
  have h: "\<exists>k<length B. island (is_buf (snd r') ! k) = int n'" if n': "n' < fst r'" for n'
  proof (cases "n' < n")
    case True
    with used obtain k where k: "k < length B" "island (is_buf st ! k) = int n'" by blast
    then have "island (is_buf st ! k) \<noteq> INVALID_ISLAND" by (simp add: INVALID_ISLAND_def)
    with d k show ?thesis by auto
  next
    case False
    with g n' have "n' = n" "island (is_buf (snd r') ! j) = int n" by auto
    with jB show ?thesis by auto
  qed
  from a b e h show ?case unfolding step by blast
qed

text \<open>
  What the finished pass leaves: every element has been copied to the new buffer exactly
  once, with the island number of its face.
\<close>

lemma island_done:
  assumes ctx: "island_ctx m fs us B vert"
    and inv: "island_inv B (length (faces m)) (int n) {} st"
    and bound: "\<forall>k<length B. island (is_buf st ! k) = INVALID_ISLAND \<or>
                  island (is_buf st ! k) < int n"
    and asg: "\<forall>k<length B. island (is_buf st ! k) \<noteq> INVALID_ISLAND"
    and used: "\<forall>n'<n. \<exists>k<length B. island (is_buf st ! k) = int n'"
  shows "uv_corner ` set (islandbuf st) = {c. uv_corner_eligible m fs us c}"
    and "distinct (map uv_corner (islandbuf st))"
    and "\<forall>e\<in>set (islandbuf st). 0 \<le> island e \<and> island e < int n"
    and "\<forall>e\<in>set (islandbuf st). \<forall>e'\<in>set (islandbuf st).
           l_face e = l_face e' \<longrightarrow> island e = island e'"
    and "\<forall>n'<n. \<exists>e\<in>set (islandbuf st). island e = int n'"
proof -
  note G = island_invD[OF inv]
  have dc: "distinct (map uv_corner B)" using ctx by (simp add: island_ctx_def)
  have el: "uv_corner ` set B = {c. uv_corner_eligible m fs us c}"
    using ctx by (auto simp: island_ctx_def in_set_conv_nth)
  have pl: "island_placed st k" if k: "k < length B" for k
  proof -
    from asg k have a: "island (is_buf st ! k) \<noteq> INVALID_ISLAND" by simp
    with G(5)[OF k a] have "island_number st ! l_face (B ! k) \<noteq> INVALID_ISLAND" by simp
    from G(7)[OF k this] show ?thesis by simp
  qed
  have cr: "uv_corner (is_buf st ! k) = uv_corner (B ! k)" if k: "k < length B" for k
    using island_inv_face(3)[OF inv k] .
  have slot: "\<exists>k<length B. remap st ! k = j \<and> islandbuf st ! j = is_buf st ! k"
    if "j < length (islandbuf st)" for j
    using G(8)[OF that] by (auto simp: island_placed_def)
  have mem: "is_buf st ! k \<in> set (islandbuf st)" if k: "k < length B" for k
    using pl[OF k] by (auto simp: island_placed_def in_set_conv_nth)
  have elem: "\<exists>k<length B. e = is_buf st ! k" if "e \<in> set (islandbuf st)" for e
  proof -
    from that obtain j where "j < length (islandbuf st)" "e = islandbuf st ! j"
      by (auto simp: in_set_conv_nth)
    with slot[of j] show ?thesis by auto
  qed
  show "uv_corner ` set (islandbuf st) = {c. uv_corner_eligible m fs us c}"
  proof (rule set_eqI, rule iffI)
    fix c assume "c \<in> uv_corner ` set (islandbuf st)"
    then obtain e where e: "e \<in> set (islandbuf st)" and c: "c = uv_corner e" by auto
    from elem[OF e] obtain k where k: "k < length B" "e = is_buf st ! k" by auto
    with cr[of k] c have "c = uv_corner (B ! k)" by simp
    with k(1) have "c \<in> uv_corner ` set B" by auto
    then show "c \<in> {c. uv_corner_eligible m fs us c}" unfolding el .
  next
    fix c assume "c \<in> {c. uv_corner_eligible m fs us c}"
    then have "c \<in> uv_corner ` set B" unfolding el .
    then obtain k where k: "k < length B" "c = uv_corner (B ! k)"
      by (auto simp: in_set_conv_nth)
    from k cr[OF k(1)] have "c = uv_corner (is_buf st ! k)" by simp
    then show "c \<in> uv_corner ` set (islandbuf st)" using mem[OF k(1)] by (rule image_eqI)
  qed
  show "distinct (map uv_corner (islandbuf st))"
    unfolding distinct_conv_nth
  proof (intro allI impI)
    fix i j
    assume i: "i < length (map uv_corner (islandbuf st))"
      and j: "j < length (map uv_corner (islandbuf st))" and ne: "i \<noteq> j"
    from slot[of i] i obtain k where k: "k < length B" "remap st ! k = i"
      "islandbuf st ! i = is_buf st ! k" by auto
    from slot[of j] j obtain k' where k': "k' < length B" "remap st ! k' = j"
      "islandbuf st ! j = is_buf st ! k'" by auto
    from k(2) k'(2) ne have kk: "k \<noteq> k'" by auto
    have "uv_corner (B ! k) \<noteq> uv_corner (B ! k')"
      using uv_corner_inj[OF dc k(1) k'(1)] kk by blast
    with cr[OF k(1)] cr[OF k'(1)] k(3) k'(3) i j
    show "map uv_corner (islandbuf st) ! i \<noteq> map uv_corner (islandbuf st) ! j"
      by simp
  qed
  show "\<forall>e\<in>set (islandbuf st). 0 \<le> island e \<and> island e < int n"
  proof
    fix e assume "e \<in> set (islandbuf st)"
    from elem[OF this] obtain k where k: "k < length B" "e = is_buf st ! k" by auto
    from G(13)[OF k(1)] bound asg k show "0 \<le> island e \<and> island e < int n" by auto
  qed
  show "\<forall>e\<in>set (islandbuf st). \<forall>e'\<in>set (islandbuf st).
           l_face e = l_face e' \<longrightarrow> island e = island e'"
  proof (intro ballI impI)
    fix e e' assume e: "e \<in> set (islandbuf st)" and e': "e' \<in> set (islandbuf st)"
      and f: "l_face e = l_face e'"
    from elem[OF e] obtain k where k: "k < length B" "e = is_buf st ! k" by auto
    from elem[OF e'] obtain k' where k': "k' < length B" "e' = is_buf st ! k'" by auto
    have lf: "l_face (is_buf st ! k) = l_face (B ! k)" "l_face (is_buf st ! k') = l_face (B ! k')"
      using cr[OF k(1)] cr[OF k'(1)] by (simp_all add: uv_corner_def)
    from G(5)[OF k(1)] G(5)[OF k'(1)] asg k k' f lf show "island e = island e'"
      by simp
  qed
  show "\<forall>n'<n. \<exists>e\<in>set (islandbuf st). island e = int n'"
  proof (intro allI impI)
    fix n' assume "n' < n"
    with used obtain k where k: "k < length B" "island (is_buf st ! k) = int n'" by blast
    with mem[OF k(1)] show "\<exists>e\<in>set (islandbuf st). island e = int n'" by blast
  qed
qed

subsection \<open>The island partition\<close>

text \<open>
  C5: after the island assignment of \<^verbatim>\<open>BM_uv_element_map_create\<close>, on a mesh whose faces
  visit each of their vertices once, the island ids partition the eligible corners: the
  returned buffer holds exactly one element for every eligible corner and none for any
  other corner, so every eligible corner carries exactly one island id; the ids are the
  numbers from 0 up to, and excluding, \<^verbatim>\<open>totalIslands\<close>, each carried by some corner; and
  two corners of the same face carry the same id.
\<close>

theorem uv_element_islands_partition:
  assumes ok: "uv_mesh_ok m"
    and cr: "BM_uv_element_map_create m stale face_selected uv_selected use_winding True = Some emap"
  shows "uv_corner ` set (em_buf emap) = {c. uv_corner_eligible m face_selected uv_selected c} \<and>
         distinct (map uv_corner (em_buf emap)) \<and>
         (\<forall>e\<in>set (em_buf emap). 0 \<le> island e \<and> island e < totalIslands emap) \<and>
         (\<forall>e\<in>set (em_buf emap). \<forall>e'\<in>set (em_buf emap).
            l_face e = l_face e' \<longrightarrow> island e = island e') \<and>
         (\<forall>i. 0 \<le> i \<and> i < totalIslands emap \<longrightarrow> (\<exists>e\<in>set (em_buf emap). island e = i))"
proof -
  define totuv where "totuv = uv_element_count face_selected uv_selected (faces m) 0"
  define sorted where "sorted = uv_element_sorted m face_selected uv_selected use_winding stale"
  define st0 where "st0 = \<lparr>is_buf = fst sorted,
      island_number = replicate (length (faces m)) INVALID_ISLAND,
      stack = [], remap = replicate totuv 0, islandbuf = []\<rparr>"
  define r where "r = foldl (island_seed m uv_selected (snd sorted)) (0, st0) [0..<totuv]"
  have nz: "uv_element_count face_selected uv_selected (faces m) 0 \<noteq> 0"
    using cr uv_element_map_create_zero[of face_selected uv_selected m stale use_winding True]
    by auto
  have "BM_uv_element_map_create m stale face_selected uv_selected use_winding True =
      Some \<lparr>em_vert = map (map (\<lambda>k. remap (snd r) ! k)) (snd sorted),
            em_buf = islandbuf (snd r), totalUVs = totuv,
            totalIslands = int (fst r),
            islandIndices = island_indices (islandbuf (snd r)) 0 0 (replicate (fst r) 0)\<rparr>"
    unfolding BM_uv_element_map_create_def Let_def r_def st0_def sorted_def totuv_def
    by (simp only: nz if_False if_True)
  with cr have e: "emap = \<lparr>em_vert = map (map (\<lambda>k. remap (snd r) ! k)) (snd sorted),
            em_buf = islandbuf (snd r), totalUVs = totuv,
            totalIslands = int (fst r),
            islandIndices = island_indices (islandbuf (snd r)) 0 0 (replicate (fst r) 0)\<rparr>"
    by simp
  have eb: "em_buf emap = islandbuf (snd r)" and et: "totalIslands emap = int (fst r)"
    by (simp_all add: e)
  from uv_element_sorted_ctx[OF ok, of face_selected uv_selected use_winding stale]
  have ctx: "island_ctx m face_selected uv_selected (fst sorted) (snd sorted)"
    and un: "\<forall>k<length (fst sorted). island (fst sorted ! k) = INVALID_ISLAND"
    and len: "length (fst sorted) = totuv"
    unfolding sorted_def totuv_def by blast+
  have inv0: "island_inv (fst sorted) (length (faces m)) 0 {} st0"
    unfolding st0_def len[symmetric] by (rule island_init_inv[OF ctx un])
  have un0: "\<forall>k<length (fst sorted). island (is_buf st0 ! k) = INVALID_ISLAND"
    using un by (simp add: st0_def)
  from island_rounds_inv[OF ctx inv0 un0 order_refl]
  have inv: "island_inv (fst sorted) (length (faces m)) (int (fst r)) {} (snd r)"
    and bound: "\<forall>k<length (fst sorted). island (is_buf (snd r) ! k) = INVALID_ISLAND \<or>
                  island (is_buf (snd r) ! k) < int (fst r)"
    and asg: "\<forall>k<length (fst sorted). island (is_buf (snd r) ! k) \<noteq> INVALID_ISLAND"
    and used: "\<forall>n'<fst r. \<exists>k<length (fst sorted). island (is_buf (snd r) ! k) = int n'"
    unfolding r_def len by blast+
  note fin = island_done[OF ctx inv bound asg used]
  have ne: "\<exists>e\<in>set (islandbuf (snd r)). island e = i" if "0 \<le> i" and "i < int (fst r)" for i
  proof -
    from that have "nat i < fst r" and "i = int (nat i)" by simp_all
    with fin(5) show ?thesis by metis
  qed
  from fin(1-4) ne show ?thesis
    unfolding eb et by blast
qed

theorem uv_element_islands_partition_witness:
  "uv_mesh_ok uv_two \<and>
   distinct (map uv_corner
     (em_buf (the (BM_uv_element_map_create uv_two no_stale False False False True)))) \<and>
   map (\<lambda>e. (uv_corner e, island e))
     (em_buf (the (BM_uv_element_map_create uv_two no_stale False False False True))) =
     [((0, 0), 0), ((0, 1), 0), ((0, 2), 0), ((2, 0), 0), ((2, 1), 0), ((2, 2), 0),
      ((1, 0), 1), ((1, 1), 1), ((1, 2), 1)] \<and>
   totalIslands (the (BM_uv_element_map_create uv_two no_stale False False False True)) = 2 \<and>
   distinct (map uv_corner
     (em_buf (the (BM_uv_element_map_create uv_flip no_stale True True False True)))) \<and>
   map (\<lambda>e. (uv_corner e, island e))
     (em_buf (the (BM_uv_element_map_create uv_flip no_stale True True False True))) =
     [((0, 0), 0), ((0, 1), 0), ((0, 2), 0)] \<and>
   totalIslands (the (BM_uv_element_map_create uv_flip no_stale True True False True)) = 1"
proof -
  have ok: "uv_mesh_ok uv_two"
    by code_simp
  have cr: "BM_uv_element_map_create uv_two no_stale False False False True =
            Some (the (BM_uv_element_map_create uv_two no_stale False False False True))"
    by code_simp
  have v: "map (\<lambda>e. (uv_corner e, island e))
     (em_buf (the (BM_uv_element_map_create uv_two no_stale False False False True))) =
     [((0, 0), 0), ((0, 1), 0), ((0, 2), 0), ((2, 0), 0), ((2, 1), 0), ((2, 2), 0),
      ((1, 0), 1), ((1, 1), 1), ((1, 2), 1)]"
    by code_simp
  have t: "totalIslands (the (BM_uv_element_map_create uv_two no_stale False False False True)) = 2"
    by code_simp
  have ok': "uv_mesh_ok uv_flip"
    by code_simp
  have cr': "BM_uv_element_map_create uv_flip no_stale True True False True =
            Some (the (BM_uv_element_map_create uv_flip no_stale True True False True))"
    by code_simp
  have v': "map (\<lambda>e. (uv_corner e, island e))
     (em_buf (the (BM_uv_element_map_create uv_flip no_stale True True False True))) =
     [((0, 0), 0), ((0, 1), 0), ((0, 2), 0)]"
    by code_simp
  have t': "totalIslands (the (BM_uv_element_map_create uv_flip no_stale True True False True)) = 1"
    by code_simp
  from uv_element_islands_partition [OF ok cr]
  have d: "distinct (map uv_corner
     (em_buf (the (BM_uv_element_map_create uv_two no_stale False False False True))))"
    by blast
  from uv_element_islands_partition [OF ok' cr']
  have d': "distinct (map uv_corner
     (em_buf (the (BM_uv_element_map_create uv_flip no_stale True True False True))))"
    by blast
  from ok v t d d' v' t' show ?thesis by blast
qed

end
